theory Spec2Isabelle
  imports Main "HOL-Library.AList" "HOL-Library.Multiset" "HOL-Library.Char_ord"
    "HOL-Library.List_Lexorder"
begin

section \<open>JavaScript strings and arrays\<close>

text \<open>
  A JavaScript string is modelled as a \<open>string\<close>: one \<open>char\<close> per UTF-16 code unit, for
  code units below 256. The character classes are those of the regular expressions and
  string methods the sources use, restricted to that range.
\<close>

definition isDigit :: "char \<Rightarrow> bool" where
  \<comment> \<open>the class \<open>\d\<close>\<close>
  "isDigit c = (c \<in> set ''0123456789'')"

definition isHexLower :: "char \<Rightarrow> bool" where
  \<comment> \<open>the class \<open>[a-f0-9]\<close>\<close>
  "isHexLower c = (c \<in> set ''abcdef0123456789'')"

definition isSpaceJS :: "char \<Rightarrow> bool" where
  \<comment> \<open>the class \<open>\s\<close>, also what \<open>trim\<close> strips: TAB, LF, VT, FF, CR, SPACE, NBSP\<close>
  "isSpaceJS c =
     (c \<in> set [CHR 0x09, CHR 0x0A, CHR 0x0B, CHR 0x0C, CHR 0x0D, CHR 0x20, CHR 0xA0])"

definition isLineTerminator :: "char \<Rightarrow> bool" where
  \<comment> \<open>what \<open>.\<close> refuses to match: LF and CR\<close>
  "isLineTerminator c = (c = CHR 0x0A \<or> c = CHR 0x0D)"

definition isPathSeparator :: "char \<Rightarrow> bool" where
  \<comment> \<open>the class \<open>[\\/]\<close>\<close>
  "isPathSeparator c = (c = CHR 0x5C \<or> c = CHR ''/'')"

fun split_by :: "(char \<Rightarrow> bool) \<Rightarrow> string \<Rightarrow> string list" where
  \<comment> \<open>\<open>s.split(sep)\<close> for a separator that matches exactly one character\<close>
  "split_by p [] = [[]]"
| "split_by p (c # cs) =
     (if p c then [] # split_by p cs
      else (case split_by p cs of
              w # ws \<Rightarrow> (c # w) # ws
            | [] \<Rightarrow> [[c]]))"

fun join_with :: "string \<Rightarrow> string list \<Rightarrow> string" where
  \<comment> \<open>\<open>xs.join(s)\<close>\<close>
  "join_with s [] = []"
| "join_with s [x] = x"
| "join_with s (x # y # ys) = x @ s @ join_with s (y # ys)"

definition startsWith :: "string \<Rightarrow> string \<Rightarrow> bool" where
  "startsWith s p = (take (length p) s = p)"

definition endsWith :: "string \<Rightarrow> string \<Rightarrow> bool" where
  "endsWith s p = (length p \<le> length s \<and> drop (length s - length p) s = p)"

definition trim :: "string \<Rightarrow> string" where
  "trim s = rev (dropWhile isSpaceJS (rev (dropWhile isSpaceJS s)))"

definition replaceBackslashes :: "string \<Rightarrow> string" where
  \<comment> \<open>\<open>s.replace(/\\/g, '/')\<close>\<close>
  "replaceBackslashes s = map (\<lambda>c. if c = CHR 0x5C then CHR ''/'' else c) s"

definition digitsValue :: "string \<Rightarrow> int" where
  "digitsValue ds = foldl (\<lambda>n c. 10 * n + (of_char c - 48)) 0 ds"

definition parseInt10 :: "string \<Rightarrow> int option" where
  \<comment> \<open>\<open>parseInt(s, 10)\<close>; \<open>None\<close> is NaN. Exact while the value is below \<open>2^53\<close>.\<close>
  "parseInt10 s =
     (let t = dropWhile isSpaceJS s;
          neg = (t \<noteq> [] \<and> hd t = CHR ''-'');
          u = (if t \<noteq> [] \<and> (hd t = CHR ''-'' \<or> hd t = CHR ''+'') then tl t else t);
          ds = takeWhile isDigit u
      in if ds = [] then None
         else Some (if neg then - digitsValue ds else digitsValue ds))"

text \<open>
  \<open>Array.prototype.sort\<close> is stable, and with a consistent comparator its result is the
  one stably sorted permutation of the array. Insertion from the right computes it.
\<close>

fun insort_cmp :: "('a \<Rightarrow> 'a \<Rightarrow> int) \<Rightarrow> 'a \<Rightarrow> 'a list \<Rightarrow> 'a list" where
  "insort_cmp cmp x [] = [x]"
| "insort_cmp cmp x (y # ys) =
     (if cmp x y \<le> 0 then x # y # ys else y # insort_cmp cmp x ys)"

definition js_sort :: "('a \<Rightarrow> 'a \<Rightarrow> int) \<Rightarrow> 'a list \<Rightarrow> 'a list" where
  "js_sort cmp xs = foldr (insort_cmp cmp) xs []"

definition consistent_cmp :: "('a \<Rightarrow> 'a \<Rightarrow> int) \<Rightarrow> bool" where
  \<comment> \<open>what ECMAScript asks of a comparator, as far as sortedness needs it\<close>
  "consistent_cmp cmp =
     ((\<forall>a b. cmp a b \<le> 0 \<or> cmp b a \<le> 0) \<and>
      (\<forall>a b c. cmp a b \<le> 0 \<and> cmp b c \<le> 0 \<longrightarrow> cmp a c \<le> 0))"

text \<open>
  A JavaScript \<open>Map\<close> keeps its keys in insertion order; it is an association list with
  distinct keys: \<open>map_of\<close> is \<open>get\<close>, \<open>AList.update\<close> is \<open>set\<close> (in place for a key that is
  present, at the end for a new one), \<open>AList.delete\<close> is \<open>delete\<close>.
\<close>

type_synonym ('k, 'v) jsmap = "('k \<times> 'v) list"

section \<open>CacheManager\<close>

record 'a CacheEntry =
  data :: 'a
  timestamp :: nat
  filePath :: string
  commitHashTag :: "string option"

type_synonym 'a CacheManager = "(string, 'a CacheEntry) jsmap"

definition cache_get :: "'a CacheManager \<Rightarrow> string \<Rightarrow> 'a option" where
  \<comment> \<open>\<open>None\<close> is \<open>undefined\<close>\<close>
  "cache_get c key = (case map_of c key of None \<Rightarrow> None | Some entry \<Rightarrow> Some (data entry))"

definition cache_set ::
  "'a CacheManager \<Rightarrow> nat \<Rightarrow> string \<Rightarrow> 'a \<Rightarrow> string \<Rightarrow> string option \<Rightarrow> 'a CacheManager" where
  \<comment> \<open>the second argument is the reading of \<open>Date.now()\<close>\<close>
  "cache_set c now key d fp ch =
     AList.update key \<lparr>data = d, timestamp = now, filePath = fp, commitHashTag = ch\<rparr> c"

definition invalidate_step ::
  "string \<Rightarrow> 'a CacheManager \<Rightarrow> string \<times> 'a CacheEntry \<Rightarrow> 'a CacheManager" where
  "invalidate_step fp m ke = (if filePath (snd ke) = fp then AList.delete (fst ke) m else m)"

definition invalidate :: "'a CacheManager \<Rightarrow> string option \<Rightarrow> 'a CacheManager" where
  \<comment> \<open>\<open>if (filePath)\<close> is false for \<open>undefined\<close> and for the empty string\<close>
  "invalidate c fpo =
     (case fpo of
        None \<Rightarrow> []
      | Some fp \<Rightarrow> if fp \<noteq> [] then foldl (invalidate_step fp) c c else [])"

section \<open>The blame parser (GitService.parseBlameOutput)\<close>

record BlameLineInfo =
  lineNumber :: int
  commitHash :: string
  author :: string
  date :: string
  summary :: string

text \<open>
  The \<open>Partial<BlameLineInfo>\<close> objects of \<open>commitCache\<close>; their \<open>lineNumber\<close> is never
  assigned and is left out.
\<close>

record PartialBlameLineInfo =
  p_commitHash :: "string option"
  p_author :: "string option"
  p_date :: "string option"
  p_summary :: "string option"

datatype error = RangeError

definition or_else :: "string option \<Rightarrow> string \<Rightarrow> string" where
  \<comment> \<open>\<open>x || d\<close> on an optional string: \<open>undefined\<close> and the empty string are falsy\<close>
  "or_else x d = (case x of None \<Rightarrow> d | Some s \<Rightarrow> if s \<noteq> [] then s else d)"

definition is_header :: "string \<Rightarrow> bool" where
  \<comment> \<open>\<open>line.match(/^[a-f0-9]{40} \d+ \d+/)\<close>\<close>
  "is_header line =
     (let r1 = drop 41 line; r2 = dropWhile isDigit r1
      in length (take 40 line) = 40 \<and> list_all isHexLower (take 40 line)
         \<and> take 1 (drop 40 line) = '' ''
         \<and> takeWhile isDigit r1 \<noteq> []
         \<and> take 1 r2 = '' ''
         \<and> list_ex isDigit (take 1 (drop 1 r2)))"

definition part_at :: "string list \<Rightarrow> nat \<Rightarrow> string option" where
  \<comment> \<open>\<open>parts[i]\<close>; \<open>None\<close> is \<open>undefined\<close>\<close>
  "part_at parts i = (if i < length parts then Some (parts ! i) else None)"

record BlameParseState =
  blameInfo :: "BlameLineInfo list"
  commitCache :: "(string, PartialBlameLineInfo) jsmap"
  currentCommitHash :: string

definition header_step :: "(nat \<Rightarrow> string) \<Rightarrow> BlameParseState \<Rightarrow> string \<Rightarrow> BlameParseState" where
  \<comment> \<open>\<open>clock n\<close> is what \<open>new Date().toISOString()\<close> reads when \<open>n\<close> records have been
     pushed. \<open>parseInt\<close> cannot give NaN on a header line (lemma \<open>header_fields\<close>).\<close>
  "header_step clock st line =
     (let parts = split_by (\<lambda>c. c = CHR '' '') line;
          h = hd parts;
          n = (case (case part_at parts 2 of None \<Rightarrow> None | Some p \<Rightarrow> parseInt10 p) of
                 None \<Rightarrow> 0 | Some k \<Rightarrow> k);
          fresh = \<lparr>p_commitHash = Some h, p_author = None, p_date = None, p_summary = None\<rparr>;
          commitInfo = (case map_of (commitCache st) h of None \<Rightarrow> fresh | Some ci \<Rightarrow> ci);
          cache' = (case map_of (commitCache st) h of
                      None \<Rightarrow> AList.update h fresh (commitCache st)
                    | Some ci \<Rightarrow> commitCache st)
      in \<lparr>blameInfo = blameInfo st @
             [\<lparr>lineNumber = n, commitHash = h,
               author = or_else (p_author commitInfo) ''Unknown'',
               date = or_else (p_date commitInfo) (clock (length (blameInfo st))),
               summary = or_else (p_summary commitInfo) []\<rparr>],
          commitCache = cache', currentCommitHash = h\<rparr>)"

definition with_current ::
  "BlameParseState \<Rightarrow> (PartialBlameLineInfo \<Rightarrow> error + PartialBlameLineInfo) \<Rightarrow>
     error + BlameParseState" where
  \<comment> \<open>\<open>if (currentCommitHash) { const commitInfo = commitCache.get(currentCommitHash);
     if (commitInfo) { ... } }\<close>\<close>
  "with_current st f =
     (if currentCommitHash st \<noteq> [] then
        (case map_of (commitCache st) (currentCommitHash st) of
           None \<Rightarrow> Inr st
         | Some ci \<Rightarrow>
             (case f ci of
                Inl e \<Rightarrow> Inl e
              | Inr ci' \<Rightarrow>
                  Inr (st\<lparr>commitCache := AList.update (currentCommitHash st) ci' (commitCache st)\<rparr>)))
      else Inr st)"

definition blame_step ::
  "(nat \<Rightarrow> string) \<Rightarrow> (int \<Rightarrow> string option) \<Rightarrow> BlameParseState \<Rightarrow> string \<Rightarrow>
     error + BlameParseState" where
  \<comment> \<open>One round of the loop. \<open>toISO ms\<close> is \<open>new Date(ms).toISOString()\<close>, \<open>None\<close> where it
     throws RangeError; it throws on NaN too.\<close>
  "blame_step clock toISO st line =
     (if is_header line then Inr (header_step clock st line)
      else if startsWith line ''author '' then
        with_current st (\<lambda>ci. Inr (ci\<lparr>p_author := Some (drop 7 line)\<rparr>))
      else if startsWith line ''author-time '' then
        with_current st (\<lambda>ci.
          case (case parseInt10 (drop 12 line) of None \<Rightarrow> None | Some t \<Rightarrow> toISO (t * 1000)) of
            None \<Rightarrow> Inl RangeError
          | Some d \<Rightarrow> Inr (ci\<lparr>p_date := Some d\<rparr>))
      else if startsWith line ''summary '' then
        with_current st (\<lambda>ci. Inr (ci\<lparr>p_summary := Some (drop 8 line)\<rparr>))
      else Inr st)"

fun blame_loop ::
  "(nat \<Rightarrow> string) \<Rightarrow> (int \<Rightarrow> string option) \<Rightarrow> BlameParseState \<Rightarrow> string list \<Rightarrow>
     error + BlameParseState" where
  "blame_loop clock toISO st [] = Inr st"
| "blame_loop clock toISO st (l # ls) =
     (case blame_step clock toISO st l of
        Inl e \<Rightarrow> Inl e
      | Inr st' \<Rightarrow> blame_loop clock toISO st' ls)"

definition parseBlameOutput ::
  "(nat \<Rightarrow> string) \<Rightarrow> (int \<Rightarrow> string option) \<Rightarrow> string \<Rightarrow> error + BlameLineInfo list" where
  "parseBlameOutput clock toISO output =
     (case blame_loop clock toISO \<lparr>blameInfo = [], commitCache = [], currentCommitHash = []\<rparr>
             (split_by (\<lambda>c. c = CHR 0x0A) output) of
        Inl e \<Rightarrow> Inl e
      | Inr st \<Rightarrow> Inr (js_sort (\<lambda>a b. lineNumber a - lineNumber b) (blameInfo st)))"

definition header_final_line :: "string \<Rightarrow> int" where
  \<comment> \<open>the number \<open>parseInt\<close> reads in the third field of a line the parser takes for a
     header\<close>
  "header_final_line line =
     digitsValue (takeWhile isDigit (drop 1 (dropWhile isDigit (drop 41 line))))"

definition timestamp_line_ok :: "(int \<Rightarrow> string option) \<Rightarrow> string \<Rightarrow> bool" where
  \<comment> \<open>on this line the parser's \<open>author-time\<close> branch does not throw\<close>
  "timestamp_line_ok toISO l =
     (\<not> startsWith l ''author-time '' \<or>
      (case parseInt10 (drop 12 l) of None \<Rightarrow> False | Some t \<Rightarrow> toISO (t * 1000) \<noteq> None))"

text \<open>
  Valid porcelain input, in the words of the specification and of git's description of
  the format, independent of the parser. A header line is three or four fields separated
  by single spaces: the hash, 40 hexadecimal digits as git prints them, the original line
  number, the final line number and, when a group starts, the number of lines of the
  group. Every other line is empty, a content line (it starts with a TAB) or a metadata
  line (one of the keys of the format, alone or followed by a space and a value).
\<close>

definition decimal :: "string \<Rightarrow> bool" where
  "decimal s = (s \<noteq> [] \<and> list_all (\<lambda>c. c \<in> set ''0123456789'') s)"

fun decimalRev :: "string \<Rightarrow> int" where
  \<comment> \<open>the value of a decimal numeral read from its last digit\<close>
  "decimalRev [] = 0"
| "decimalRev (c # cs) = (of_char c - 48) + 10 * decimalRev cs"

definition decimalValue :: "string \<Rightarrow> int" where
  "decimalValue s = decimalRev (rev s)"

definition spec_header_fields :: "string \<Rightarrow> string \<Rightarrow> string \<Rightarrow> bool" where
  "spec_header_fields h ol fl =
     (length h = 40 \<and> list_all (\<lambda>c. c \<in> set ''0123456789abcdef'') h \<and> decimal ol \<and> decimal fl)"

definition spec_header :: "string \<Rightarrow> bool" where
  "spec_header line =
     (case split_by (\<lambda>c. c = CHR '' '') line of
        [h, ol, fl] \<Rightarrow> spec_header_fields h ol fl
      | [h, ol, fl, n] \<Rightarrow> spec_header_fields h ol fl \<and> decimal n
      | _ \<Rightarrow> False)"

definition spec_final_line :: "string \<Rightarrow> int" where
  \<comment> \<open>the final line number of a header line\<close>
  "spec_final_line line = decimalValue (split_by (\<lambda>c. c = CHR '' '') line ! 2)"

definition porcelain_keys :: "string list" where
  "porcelain_keys =
     [''author'', ''author-mail'', ''author-time'', ''author-tz'', ''committer'',
      ''committer-mail'', ''committer-time'', ''committer-tz'', ''summary'', ''previous'',
      ''filename'', ''boundary'']"

definition spec_metadata_line :: "string \<Rightarrow> bool" where
  "spec_metadata_line l = list_ex (\<lambda>k. l = k \<or> startsWith l (k @ '' '')) porcelain_keys"

definition spec_blame_line :: "string \<Rightarrow> bool" where
  \<comment> \<open>a line of porcelain output: it holds no line feed and is of one of the four kinds\<close>
  "spec_blame_line l =
     (CHR 0x0A \<notin> set l \<and>
      (spec_header l \<or> l = [] \<or> take 1 l = [CHR 0x09] \<or> spec_metadata_line l))"

definition spec_timestamp_ok :: "(int \<Rightarrow> string option) \<Rightarrow> string \<Rightarrow> bool" where
  \<comment> \<open>the value of an \<open>author-time\<close> line is a decimal number of seconds that \<open>Date\<close>
     can print\<close>
  "spec_timestamp_ok toISO l =
     (\<not> startsWith l ''author-time '' \<or>
      (decimal (drop 12 l) \<and> toISO (decimalValue (drop 12 l) * 1000) \<noteq> None))"

definition valid_blame_lines :: "(int \<Rightarrow> string option) \<Rightarrow> string list \<Rightarrow> bool" where
  \<comment> \<open>the lines of the porcelain output of a file of \<open>n\<close> lines: one header line for each
     final line number \<open>1..n\<close>, in any order\<close>
  "valid_blame_lines toISO ls =
     (ls \<noteq> [] \<and> list_all spec_blame_line ls \<and> list_all (spec_timestamp_ok toISO) ls \<and>
      mset (map spec_final_line (filter spec_header ls)) =
        mset (map int [1 ..< Suc (length (filter spec_header ls))]))"

section \<open>Name-status parsing and the cached queries of GitService\<close>

datatype FileStatus = added | modified | deleted | unchanged

record ChangedFile =
  path :: string
  status :: FileStatus

definition matchNameStatus :: "string \<Rightarrow> (string \<times> string) option" where
  \<comment> \<open>\<open>line.match(/^([AMDRT]\d*)\s+(.+)$/)\<close>: the two groups. When only white space
     follows the code, the match backtracks and the path is the last white-space
     character.\<close>
  "matchNameStatus line =
     (case line of
        [] \<Rightarrow> None
      | c # r \<Rightarrow>
          if c \<in> set ''AMDRT'' then
            (let ds = takeWhile isDigit r; r1 = dropWhile isDigit r;
                 ws = takeWhile isSpaceJS r1; rest = dropWhile isSpaceJS r1
             in if ws = [] then None
                else if rest \<noteq> [] then
                  (if list_ex isLineTerminator rest then None else Some (c # ds, rest))
                else if 2 \<le> length ws \<and> \<not> isLineTerminator (last ws) then Some (c # ds, [last ws])
                else None)
          else None)"

definition fileStatusOf :: "string \<Rightarrow> FileStatus" where
  "fileStatusOf st =
     (if startsWith st ''A'' then added
      else if startsWith st ''M'' then modified
      else if startsWith st ''D'' then deleted
      else if startsWith st ''R'' then modified
      else if startsWith st ''T'' then modified
      else unchanged)"

definition parseNameStatusLine :: "string \<Rightarrow> ChangedFile option" where
  "parseNameStatusLine line =
     (case matchNameStatus line of
        None \<Rightarrow> None
      | Some (st, fp) \<Rightarrow> Some \<lparr>path = fp, status = fileStatusOf st\<rparr>)"

definition parseNameStatus :: "string \<Rightarrow> ChangedFile list" where
  \<comment> \<open>from \<open>result.split('\n').filter(line => line.trim())\<close> to the end of the loop\<close>
  "parseNameStatus result =
     List.map_filter parseNameStatusLine
       (filter (\<lambda>line. trim line \<noteq> []) (split_by (\<lambda>c. c = CHR 0x0A) result))"

text \<open>
  The contract in the words of the specification, for comparison: a leading status code
  of one or two characters, followed by white space and a path; the first character of
  the code gives the status (A added, M modified, D deleted, R and T modified).
\<close>

definition spec_parseNameStatusLine :: "string \<Rightarrow> ChangedFile option" where
  "spec_parseNameStatusLine line =
     (let code = takeWhile (\<lambda>c. \<not> isSpaceJS c) line;
          r = dropWhile (\<lambda>c. \<not> isSpaceJS c) line;
          p = dropWhile isSpaceJS r
      in if (length code = 1 \<or> length code = 2) \<and> hd code \<in> set ''AMDRT'' \<and> r \<noteq> [] \<and> p \<noteq> []
         then Some \<lparr>path = p, status = fileStatusOf code\<rparr>
         else None)"

text \<open>
  Node's \<open>path\<close> module is not part of the repository and differs between platforms; the
  service takes the four members it uses as a parameter.
\<close>

record path_api =
  path_normalize :: "string \<Rightarrow> string"
  path_join :: "string \<Rightarrow> string \<Rightarrow> string"
  path_sep :: char
  path_basename :: "string \<Rightarrow> string"

text \<open>
  The \<open>simple-git\<close> handle of a repository is identified by the root it was opened on.
  \<open>git_show root args\<close> is the text \<open>git.show(args)\<close> resolves to, \<open>None\<close> when it rejects.
\<close>

record git_env =
  git_show :: "string \<Rightarrow> string list \<Rightarrow> string option"
  date_now :: nat

datatype payload = Files "ChangedFile list" | Content string | Blame "BlameLineInfo list"

fun truthy :: "payload \<Rightarrow> bool" where
  \<comment> \<open>arrays are truthy, the empty string is not\<close>
  "truthy (Files fs) = True"
| "truthy (Content s) = (s \<noteq> [])"
| "truthy (Blame bs) = True"

text \<open>
  The state of a GitService. \<open>gitCalls\<close> is not a field of the class: it records, in
  order, every query sent to a repository.
\<close>

record GitService =
  workspaceRoot :: string
  isGitRepo :: bool
  submoduleRepos :: "(string, string) jsmap"
  cache :: "payload CacheManager"
  gitCalls :: "(string \<times> string list) list"

definition getRepoForFile :: "path_api \<Rightarrow> GitService \<Rightarrow> string \<Rightarrow> string option" where
  \<comment> \<open>the root of the owning repository; \<open>None\<close> is \<open>null\<close>\<close>
  "getRepoForFile P s fp =
     (let normalizedFile = path_normalize P fp
      in case find (\<lambda>(submodulePath, repoRoot).
                 startsWith normalizedFile
                   (path_normalize P (path_join P (workspaceRoot s) submodulePath)))
              (submoduleRepos s) of
           Some (submodulePath, repoRoot) \<Rightarrow> Some repoRoot
         | None \<Rightarrow> if isGitRepo s then Some (workspaceRoot s) else None)"

definition getRelativePathForRepo :: "path_api \<Rightarrow> string \<Rightarrow> string \<Rightarrow> string" where
  "getRelativePathForRepo P fp repoRoot =
     (let normalizedFile = path_normalize P fp;
          normalizedRepo = path_normalize P repoRoot
      in if startsWith normalizedFile normalizedRepo then
           (let relativePath = drop (length normalizedRepo) normalizedFile;
                relativePath' = (if startsWith relativePath [path_sep P]
                                 then drop 1 relativePath else relativePath)
            in replaceBackslashes relativePath')
         else replaceBackslashes fp)"

definition record_call :: "GitService \<Rightarrow> string \<Rightarrow> string list \<Rightarrow> GitService" where
  "record_call s root args = s\<lparr>gitCalls := gitCalls s @ [(root, args)]\<rparr>"

definition repoForOptionalFile :: "path_api \<Rightarrow> GitService \<Rightarrow> string option \<Rightarrow> string option" where
  \<comment> \<open>\<open>if (filePath) { repo = getRepoForFile(filePath); ... } else { git = mainGit }\<close>\<close>
  "repoForOptionalFile P s fpo =
     (case fpo of
        None \<Rightarrow> Some (workspaceRoot s)
      | Some fp \<Rightarrow> if fp \<noteq> [] then getRepoForFile P s fp else Some (workspaceRoot s))"

definition getChangedFiles_query ::
  "path_api \<Rightarrow> git_env \<Rightarrow> GitService \<Rightarrow> string \<Rightarrow> string option \<Rightarrow> payload \<times> GitService" where
  \<comment> \<open>the body after the cache test\<close>
  "getChangedFiles_query P env s h fpo =
     (case repoForOptionalFile P s fpo of
        None \<Rightarrow> (Files [], s)
      | Some git \<Rightarrow>
          (let args = [''--name-status'', ''--pretty=format:'', h];
               s1 = record_call s git args
           in case git_show env git args of
                None \<Rightarrow> (Files [], s1)
              | Some result \<Rightarrow>
                  (let files = parseNameStatus result
                   in (Files files,
                       s1\<lparr>cache := cache_set (cache s1) (date_now env) (''files:'' @ h)
                                     (Files files) [] (Some h)\<rparr>))))"

definition getChangedFiles ::
  "path_api \<Rightarrow> git_env \<Rightarrow> GitService \<Rightarrow> string \<Rightarrow> string option \<Rightarrow> payload \<times> GitService" where
  \<comment> \<open>the value the promise resolves to, and the service afterwards; \<open>cached\<close> is returned
     as it was stored\<close>
  "getChangedFiles P env s h fpo =
     (case cache_get (cache s) (''files:'' @ h) of
        None \<Rightarrow> getChangedFiles_query P env s h fpo
      | Some cached \<Rightarrow> if truthy cached then (cached, s) else getChangedFiles_query P env s h fpo)"

definition getFileContent_query ::
  "path_api \<Rightarrow> git_env \<Rightarrow> GitService \<Rightarrow> string \<Rightarrow> string \<Rightarrow> payload \<times> GitService" where
  "getFileContent_query P env s h fp =
     (case getRepoForFile P s fp of
        None \<Rightarrow> (Content [], s)
      | Some root \<Rightarrow>
          (let relativePath = getRelativePathForRepo P fp root;
               args = [h @ '':'' @ relativePath];
               s1 = record_call s root args
           in case git_show env root args of
                None \<Rightarrow> (Content [], s1)
              | Some content \<Rightarrow>
                  (Content content,
                   s1\<lparr>cache := cache_set (cache s1) (date_now env) (''content:'' @ h @ '':'' @ fp)
                                 (Content content) fp (Some h)\<rparr>)))"

definition getFileContent ::
  "path_api \<Rightarrow> git_env \<Rightarrow> GitService \<Rightarrow> string \<Rightarrow> string \<Rightarrow> payload \<times> GitService" where
  "getFileContent P env s h fp =
     (case cache_get (cache s) (''content:'' @ h @ '':'' @ fp) of
        None \<Rightarrow> getFileContent_query P env s h fp
      | Some cached \<Rightarrow> if truthy cached then (cached, s) else getFileContent_query P env s h fp)"

definition invalidateCache :: "GitService \<Rightarrow> string option \<Rightarrow> GitService" where
  "invalidateCache s fpo = s\<lparr>cache := invalidate (cache s) fpo\<rparr>"

section \<open>The file tree (GitHistoryProvider)\<close>

datatype CollapsibleState = Collapsed | Expanded

datatype TreeItem =
    FolderItem string string CollapsibleState
  | FileItem string string string bool FileStatus

text \<open>
  \<open>FolderItem name folderPath state\<close> and \<open>FileItem name commitHash filePath isCurrentFile
  status\<close>, as their constructors take them. The label is what the constructors pass to
  \<open>TreeItem\<close>; a current file's label gets a suffix.
\<close>

fun isFolder :: "TreeItem \<Rightarrow> bool" where
  "isFolder (FolderItem n p st) = True"
| "isFolder (FileItem n h p cur fs) = False"

fun label :: "TreeItem \<Rightarrow> string" where
  "label (FolderItem n p st) = n"
| "label (FileItem n h p cur fs) = (if cur then n @ '' (current)'' else n)"

fun folderPathOf :: "TreeItem \<Rightarrow> string option" where
  "folderPathOf (FolderItem n p st) = Some p"
| "folderPathOf (FileItem n h p cur fs) = None"

fun filePathOf :: "TreeItem \<Rightarrow> string option" where
  "filePathOf (FolderItem n p st) = None"
| "filePathOf (FileItem n h p cur fs) = Some p"

fun isExpanded :: "TreeItem \<Rightarrow> bool" where
  "isExpanded (FolderItem n p st) = (st = Expanded)"
| "isExpanded (FileItem n h p cur fs) = False"

type_synonym FileTree = "(string, TreeItem list) jsmap"

definition children :: "FileTree \<Rightarrow> string \<Rightarrow> TreeItem list" where
  \<comment> \<open>\<open>tree.get(p) || []\<close>\<close>
  "children tree p = (case map_of tree p of None \<Rightarrow> [] | Some items \<Rightarrow> items)"

definition childPath :: "string \<Rightarrow> string \<Rightarrow> string" where
  \<comment> \<open>\<open>currentPath ? `${currentPath}/${folderName}` : folderName\<close>\<close>
  "childPath cur name = (if cur \<noteq> [] then cur @ ''/'' @ name else name)"

definition folder_step ::
  "bool \<Rightarrow> string \<times> FileTree \<times> (string, TreeItem) jsmap \<Rightarrow> string \<Rightarrow>
     string \<times> FileTree \<times> (string, TreeItem) jsmap" where
  \<comment> \<open>one round of the inner loop, on \<open>(currentPath, tree, folderMap)\<close>\<close>
  "folder_step allExpanded acc folderName =
     (case acc of (currentPath, tree, folderMap) \<Rightarrow>
        (let parentPath = currentPath;
             currentPath' = childPath currentPath folderName
         in if map_of folderMap currentPath' = None then
              (let folder = FolderItem folderName currentPath'
                              (if allExpanded then Expanded else Collapsed)
               in (currentPath',
                   AList.update parentPath (children tree parentPath @ [folder]) tree,
                   AList.update currentPath' folder folderMap))
            else (currentPath', tree, folderMap)))"

definition isCurrentFile :: "path_api \<Rightarrow> string option \<Rightarrow> string \<Rightarrow> bool" where
  "isCurrentFile P currentFilePath fp =
     (currentFilePath = Some fp
      \<or> (case currentFilePath of None \<Rightarrow> False | Some c \<Rightarrow> endsWith c fp)
      \<or> endsWith fp (path_basename P (case currentFilePath of None \<Rightarrow> [] | Some c \<Rightarrow> c)))"

definition file_step ::
  "path_api \<Rightarrow> bool \<Rightarrow> string option \<Rightarrow> string \<Rightarrow> FileTree \<times> (string, TreeItem) jsmap \<Rightarrow>
     ChangedFile \<Rightarrow> FileTree \<times> (string, TreeItem) jsmap" where
  \<comment> \<open>one round of the loop over the files\<close>
  "file_step P allExpanded currentFilePath h acc fileInfo =
     (case acc of (tree, folderMap) \<Rightarrow>
        (let parts = split_by isPathSeparator (path fileInfo)
         in case foldl (folder_step allExpanded) ([], tree, folderMap) (butlast parts) of
              (currentPath, tree1, folderMap1) \<Rightarrow>
                (let file = FileItem (last parts) h (path fileInfo)
                              (isCurrentFile P currentFilePath (path fileInfo)) (status fileInfo)
                 in (AList.update currentPath (children tree1 currentPath @ [file]) tree1,
                     folderMap1))))"

definition itemCompare :: "(string \<Rightarrow> string \<Rightarrow> int) \<Rightarrow> TreeItem \<Rightarrow> TreeItem \<Rightarrow> int" where
  "itemCompare lc a b =
     (if isFolder a \<and> \<not> isFolder b then - 1
      else if \<not> isFolder a \<and> isFolder b then 1
      else lc (label a) (label b))"

definition buildFileTree ::
  "path_api \<Rightarrow> (string \<Rightarrow> string \<Rightarrow> int) \<Rightarrow> bool \<Rightarrow> string option \<Rightarrow> ChangedFile list \<Rightarrow> string \<Rightarrow>
     FileTree \<times> ChangedFile list" where
  \<comment> \<open>\<open>lc a b\<close> is \<open>a.localeCompare(b)\<close>. The result is the tree returned and the caller's
     \<open>files\<close> array as the call leaves it.\<close>
  "buildFileTree P lc allExpanded currentFilePath files h =
     (let files' = js_sort (\<lambda>a b. lc (path a) (path b)) files;
          tree = fst (foldl (file_step P allExpanded currentFilePath h) ([], []) files')
      in (map (\<lambda>(folderPath, items). (folderPath, js_sort (itemCompare lc) items)) tree, files'))"

definition expand_in :: "string \<Rightarrow> string \<Rightarrow> FileTree \<Rightarrow> FileTree" where
  \<comment> \<open>the two inner loops: every folder item of the tree with this path is replaced\<close>
  "expand_in folderName currentFolderPath tree =
     map (\<lambda>(parentPath, items).
            (parentPath,
             map (\<lambda>item. if folderPathOf item = Some currentFolderPath
                          then FolderItem folderName currentFolderPath Expanded else item) items))
         tree"

definition expand_step :: "string \<times> FileTree \<Rightarrow> string \<Rightarrow> string \<times> FileTree" where
  "expand_step acc folderName =
     (case acc of (currentFolderPath, tree) \<Rightarrow>
        (let currentFolderPath' = childPath currentFolderPath folderName
         in (currentFolderPath', expand_in folderName currentFolderPath' tree)))"

definition targetRelativePath :: "path_api \<Rightarrow> GitService \<Rightarrow> string \<Rightarrow> string" where
  \<comment> \<open>\<open>relativePath\<close>: the current file's path relative to its repository\<close>
  "targetRelativePath P svc cfp =
     (case getRepoForFile P svc cfp of
        Some root \<Rightarrow> getRelativePathForRepo P cfp root
      | None \<Rightarrow> cfp)"

definition expandFoldersToCurrentFile ::
  "path_api \<Rightarrow> GitService \<Rightarrow> string option \<Rightarrow> FileTree \<Rightarrow> FileTree" where
  \<comment> \<open>the tree after the call, which replaces items of its arrays in place\<close>
  "expandFoldersToCurrentFile P svc currentFilePath tree =
     (case currentFilePath of
        None \<Rightarrow> tree
      | Some cfp \<Rightarrow>
          if cfp = [] then tree
          else
            (let relativePath = targetRelativePath P svc cfp
             in if list_ex (\<lambda>(folderPath, items).
                              list_ex (\<lambda>item. filePathOf item = Some relativePath) items) tree
                then snd (foldl expand_step ([], tree)
                            (butlast (split_by isPathSeparator relativePath)))
                else tree))"

fun ancestorPathsFrom :: "string \<Rightarrow> string list \<Rightarrow> string list" where
  "ancestorPathsFrom cur [] = []"
| "ancestorPathsFrom cur (n # ns) = childPath cur n # ancestorPathsFrom (childPath cur n) ns"

definition ancestorPaths :: "string \<Rightarrow> string list" where
  \<comment> \<open>the folder paths on the ancestor chain of a file path, outermost first\<close>
  "ancestorPaths p = ancestorPathsFrom [] (butlast (split_by isPathSeparator p))"

text \<open>
  The location rule in the words of the specification, for comparison: the file whose
  path equals the target, and only when there is none, a file matched by suffix or by
  base name.
\<close>

definition spec_locateTarget :: "path_api \<Rightarrow> ChangedFile list \<Rightarrow> string \<Rightarrow> ChangedFile option" where
  "spec_locateTarget P files target =
     (case find (\<lambda>f. path f = target) files of
        Some f \<Rightarrow> Some f
      | None \<Rightarrow> find (\<lambda>f. endsWith target (path f) \<or> endsWith (path f) (path_basename P target))
                  files)"

section \<open>A concrete platform and concrete inputs\<close>

text \<open>
  Node's \<open>path.posix\<close>, after its documentation: \<open>normalize\<close> resolves \<open>.\<close> and \<open>..\<close>
  segments and repeated slashes and keeps a trailing slash, \<open>join\<close> normalizes the
  non-empty arguments joined by a slash, \<open>basename\<close> is the last segment. The theorems
  below hold for every \<open>path_api\<close>; this one serves the concrete inputs.
\<close>

fun normalizeSegments :: "bool \<Rightarrow> string list \<Rightarrow> string list \<Rightarrow> string list" where
  "normalizeSegments allowAboveRoot acc [] = rev acc"
| "normalizeSegments allowAboveRoot acc (s # ss) =
     (if s = [] \<or> s = ''.'' then normalizeSegments allowAboveRoot acc ss
      else if s = ''..'' then
        (if acc \<noteq> [] \<and> hd acc \<noteq> ''..'' then normalizeSegments allowAboveRoot (tl acc) ss
         else if allowAboveRoot then normalizeSegments allowAboveRoot (''..'' # acc) ss
         else normalizeSegments allowAboveRoot acc ss)
      else normalizeSegments allowAboveRoot (s # acc) ss)"

definition posix_normalize :: "string \<Rightarrow> string" where
  "posix_normalize p =
     (if p = [] then ''.''
      else
        (let isAbsolute = (hd p = CHR ''/'');
             trailingSeparator = (last p = CHR ''/'');
             body = join_with ''/''
                      (normalizeSegments (\<not> isAbsolute) [] (split_by (\<lambda>c. c = CHR ''/'') p))
         in if body = [] then
              (if isAbsolute then ''/'' else if trailingSeparator then ''./'' else ''.'')
            else (if isAbsolute then ''/'' else []) @ body
                 @ (if trailingSeparator then ''/'' else [])))"

definition posix_join :: "string \<Rightarrow> string \<Rightarrow> string" where
  "posix_join a b =
     (if a = [] \<and> b = [] then ''.''
      else if a = [] then posix_normalize b
      else if b = [] then posix_normalize a
      else posix_normalize (a @ ''/'' @ b))"

definition posix_basename :: "string \<Rightarrow> string" where
  "posix_basename p =
     rev (takeWhile (\<lambda>c. c \<noteq> CHR ''/'') (dropWhile (\<lambda>c. c = CHR ''/'') (rev p)))"

definition posix :: path_api where
  "posix = \<lparr>path_normalize = posix_normalize, path_join = posix_join, path_sep = CHR ''/'',
            path_basename = posix_basename\<rparr>"

definition codeUnitCompare :: "string \<Rightarrow> string \<Rightarrow> int" where
  \<comment> \<open>a consistent comparator: the order of the code units\<close>
  "codeUnitCompare a b = (if a < b then - 1 else if a = b then 0 else 1)"

definition example_cache :: "payload CacheManager" where
  "example_cache =
     [(''blame:/repo/src/a.ts'',
       \<lparr>data = Blame [], timestamp = 1, filePath = ''/repo/src/a.ts'', commitHashTag = None\<rparr>),
      (''files:abc123'',
       \<lparr>data = Files [\<lparr>path = ''src/a.ts'', status = modified\<rparr>], timestamp = 2, filePath = [],
         commitHashTag = Some ''abc123''\<rparr>),
      (''content:abc123:/repo/src/b.ts'',
       \<lparr>data = Content ''text'', timestamp = 3, filePath = ''/repo/src/b.ts'',
         commitHashTag = Some ''abc123''\<rparr>)]"

definition example_service :: GitService where
  "example_service =
     \<lparr>workspaceRoot = ''/repo'', isGitRepo = True, submoduleRepos = [], cache = [],
      gitCalls = []\<rparr>"

definition example_files :: "ChangedFile list" where
  "example_files =
     [\<lparr>path = ''src/a.ts'', status = modified\<rparr>,
      \<lparr>path = ''src/b.ts'', status = added\<rparr>,
      \<lparr>path = ''old.ts'', status = deleted\<rparr>]"

definition example_name_status :: string where
  \<comment> \<open>three lines: \<open>M<TAB>src/a.ts\<close>, \<open>A<TAB>src/b.ts\<close>, \<open>D<TAB>old.ts\<close>\<close>
  "example_name_status =
     ''M'' @ [CHR 0x09] @ ''src/a.ts'' @ [CHR 0x0A] @ ''A'' @ [CHR 0x09] @ ''src/b.ts''
       @ [CHR 0x0A] @ ''D'' @ [CHR 0x09] @ ''old.ts''"

definition example_hash :: string where
  "example_hash = ''0123456789abcdef0123456789abcdef01234567''"

definition example_blame :: string where
  \<comment> \<open>a commit that prints its metadata after its first header and a bare header later\<close>
  "example_blame =
     example_hash @ '' 1 1 2'' @ [CHR 0x0A] @ ''author Alice'' @ [CHR 0x0A]
       @ ''author-time 1000'' @ [CHR 0x0A] @ ''summary fix'' @ [CHR 0x0A, CHR 0x09] @ ''code''
       @ [CHR 0x0A] @ example_hash @ '' 2 2'' @ [CHR 0x0A, CHR 0x09] @ ''more''"

definition example_toISO :: "int \<Rightarrow> string option" where
  \<comment> \<open>\<open>Date.prototype.toISOString\<close> at the one instant the example needs\<close>
  "example_toISO ms = (if ms = 1000000 then Some ''1970-01-01T00:16:40.000Z'' else None)"

definition example_backslash_path :: string where
  "example_backslash_path = [CHR 0x5C] @ ''repo'' @ [CHR 0x5C] @ ''x''"

definition example_rename_line :: string where
  \<comment> \<open>\<open>R100<TAB>old.ts<TAB>new.ts\<close>, what git prints for a rename\<close>
  "example_rename_line = ''R100'' @ [CHR 0x09] @ ''old.ts'' @ [CHR 0x09] @ ''new.ts''"

definition example_combined_line :: string where
  \<comment> \<open>\<open>MM<TAB>src/a.ts\<close>, a two-letter code\<close>
  "example_combined_line = ''MM'' @ [CHR 0x09] @ ''src/a.ts''"

definition example_env :: git_env where
  \<comment> \<open>a repository that answers the name-status query of commit \<open>abc123\<close> and knows one
     empty blob\<close>
  "example_env =
     \<lparr>git_show = (\<lambda>root args.
        if root = ''/repo'' \<and> args = [''--name-status'', ''--pretty=format:'', ''abc123'']
        then Some example_name_status
        else if root = ''/repo'' \<and> args = [''abc123:src/empty.txt''] then Some []
        else None),
      date_now = 7\<rparr>"

definition example_clock :: "nat \<Rightarrow> string" where
  \<comment> \<open>a clock that reads the same instant at every push\<close>
  "example_clock n = ''2026-01-01T00:00:00.000Z''"

section \<open>Notions used in the statements\<close>

definition letterStatus :: "char \<Rightarrow> FileStatus" where
  \<comment> \<open>the status a code letter stands for\<close>
  "letterStatus c = (if c = CHR ''A'' then added else if c = CHR ''D'' then deleted else modified)"

definition folders_then_files :: "(string \<Rightarrow> string \<Rightarrow> int) \<Rightarrow> TreeItem list \<Rightarrow> bool" where
  \<comment> \<open>the folder entries come first, and each group is ordered by label\<close>
  "folders_then_files lc items =
     (items = filter isFolder items @ filter (\<lambda>i. \<not> isFolder i) items
      \<and> sorted_wrt (\<lambda>a b. lc (label a) (label b) \<le> 0) (filter isFolder items)
      \<and> sorted_wrt (\<lambda>a b. lc (label a) (label b) \<le> 0) (filter (\<lambda>i. \<not> isFolder i) items))"

definition record_key :: "BlameLineInfo \<Rightarrow> int \<times> string" where
  \<comment> \<open>what a record takes from its header line\<close>
  "record_key r = (lineNumber r, commitHash r)"

definition header_key :: "string \<Rightarrow> int \<times> string" where
  \<comment> \<open>final line number and hash of a header line\<close>
  "header_key l = (header_final_line l, take 40 l)"

definition tree_items :: "FileTree \<Rightarrow> TreeItem set" where
  \<comment> \<open>every item of every child list\<close>
  "tree_items tree = (\<Union>(folderPath, items) \<in> set tree. set items)"

definition build_inv :: "bool \<Rightarrow> FileTree \<Rightarrow> (string, TreeItem) jsmap \<Rightarrow> bool" where
  \<comment> \<open>folders carry the state of the build, and a path known to \<open>folderMap\<close> has its
     folder item in the tree\<close>
  "build_inv allExpanded tree folderMap =
     ((\<forall>i \<in> tree_items tree. isFolder i \<longrightarrow> isExpanded i = allExpanded) \<and>
      (\<forall>p. map_of folderMap p \<noteq> None \<longrightarrow> (\<exists>i \<in> tree_items tree. folderPathOf i = Some p)))"

definition file_paths :: "FileTree \<Rightarrow> string set" where
  \<comment> \<open>the paths of the File nodes of a tree\<close>
  "file_paths tree = {p. \<exists>i \<in> tree_items tree. filePathOf i = Some p}"

definition expandItem :: "string \<Rightarrow> string \<Rightarrow> TreeItem \<Rightarrow> TreeItem" where
  \<comment> \<open>what one round of the expansion does to one item\<close>
  "expandItem n p item = (if folderPathOf item = Some p then FolderItem n p Expanded else item)"

fun expandItems :: "string \<Rightarrow> string list \<Rightarrow> TreeItem \<Rightarrow> TreeItem" where
  "expandItems cur [] item = item"
| "expandItems cur (n # ns) item =
     expandItems (childPath cur n) ns (expandItem n (childPath cur n) item)"

definition map_tree :: "(TreeItem \<Rightarrow> TreeItem) \<Rightarrow> FileTree \<Rightarrow> FileTree" where
  \<comment> \<open>the same change on every item, the shape of the tree kept\<close>
  "map_tree f tree = map (\<lambda>(folderPath, items). (folderPath, map f items)) tree"

fun well_named :: "TreeItem \<Rightarrow> bool" where
  \<comment> \<open>a folder's path ends in its name, and the name has no slash\<close>
  "well_named (FolderItem n p st) = ((\<exists>c. p = childPath c n) \<and> CHR ''/'' \<notin> set n)"
| "well_named (FileItem n h p cur fs) = True"

definition example_blame_lines :: "string list" where
  \<comment> \<open>two lines of one commit, the second line of the file printed first\<close>
  "example_blame_lines =
     [example_hash @ '' 2 2 1'', ''author Alice'', ''author-mail <alice@example.org>'',
      ''author-time 1000'', ''summary fix'', ''filename a.ts'', CHR 0x09 # ''more'',
      example_hash @ '' 1 1 1'', CHR 0x09 # ''code'', []]"

definition example_name_status_lines :: "string list" where
  \<comment> \<open>a blank line, three changes, a line of another shape\<close>
  "example_name_status_lines =
     [[], ''M'' @ [CHR 0x09] @ ''src/a.ts'', ''R100'' @ [CHR 0x09] @ ''old.ts'',
      ''MM'' @ [CHR 0x09] @ ''src/b.ts'', ''D'' @ [CHR 0x09] @ ''gone.ts'']"

section \<open>Properties of the cache\<close>

lemma invalidate_fold_filter:
  "foldl (invalidate_step fp) m es =
     filter (\<lambda>ke. \<forall>e \<in> set es. fst e = fst ke \<longrightarrow> filePath (snd e) \<noteq> fp) m"
proof (induction es arbitrary: m)
  case Nil
  show ?case by simp
next
  case (Cons e es)
  show ?case
  proof (cases "filePath (snd e) = fp")
    case True
    have "foldl (invalidate_step fp) m (e # es) =
        foldl (invalidate_step fp) (AList.delete (fst e) m) es"
      using True by (simp add: invalidate_step_def)
    also have "\<dots> = filter (\<lambda>ke. \<forall>x \<in> set es. fst x = fst ke \<longrightarrow> filePath (snd x) \<noteq> fp)
        (AList.delete (fst e) m)"
      by (rule Cons.IH)
    also have "\<dots> = filter (\<lambda>ke. \<forall>x \<in> set (e # es). fst x = fst ke \<longrightarrow> filePath (snd x) \<noteq> fp) m"
      using True by (auto simp: AList.delete_eq intro!: filter_cong)
    finally show ?thesis .
  next
    case False
    have "foldl (invalidate_step fp) m (e # es) = foldl (invalidate_step fp) m es"
      using False by (simp add: invalidate_step_def)
    also have "\<dots> = filter (\<lambda>ke. \<forall>x \<in> set es. fst x = fst ke \<longrightarrow> filePath (snd x) \<noteq> fp) m"
      by (rule Cons.IH)
    also have "\<dots> = filter (\<lambda>ke. \<forall>x \<in> set (e # es). fst x = fst ke \<longrightarrow> filePath (snd x) \<noteq> fp) m"
      using False by (auto intro!: filter_cong)
    finally show ?thesis .
  qed
qed

lemma invalidate_path_filter:
  assumes "distinct (map fst c)" and "fp \<noteq> []"
  shows "invalidate c (Some fp) = filter (\<lambda>ke. filePath (snd ke) \<noteq> fp) c"
proof -
  have "invalidate c (Some fp) =
      filter (\<lambda>ke. \<forall>e \<in> set c. fst e = fst ke \<longrightarrow> filePath (snd e) \<noteq> fp) c"
    using assms(2) by (simp add: invalidate_def invalidate_fold_filter)
  also have "\<dots> = filter (\<lambda>ke. filePath (snd ke) \<noteq> fp) c"
  proof (rule filter_cong[OF refl])
    fix ke assume ke: "ke \<in> set c"
    have "e = ke" if "e \<in> set c" "fst e = fst ke" for e
      using that ke assms(1) by (metis eq_key_imp_eq_value prod.collapse)
    then show "(\<forall>e \<in> set c. fst e = fst ke \<longrightarrow> filePath (snd e) \<noteq> fp) =
        (filePath (snd ke) \<noteq> fp)"
      using ke by auto
  qed
  finally show ?thesis .
qed

lemma map_of_invalidate_path:
  assumes "distinct (map fst c)" and "fp \<noteq> []"
  shows "map_of (invalidate c (Some fp)) key =
     (case map_of c key of
        None \<Rightarrow> None
      | Some entry \<Rightarrow> if filePath entry = fp then None else Some entry)"
proof -
  have "map_of (filter (\<lambda>ke. filePath (snd ke) \<noteq> fp) c) key =
     (case map_of c key of
        None \<Rightarrow> None
      | Some entry \<Rightarrow> if filePath entry = fp then None else Some entry)"
    using assms(1)
  proof (induction c)
    case Nil
    show ?case by simp
  next
    case (Cons a c)
    then show ?case
      by (cases a) (auto split: option.splits dest: map_of_SomeD simp: rev_image_eqI)
  qed
  then show ?thesis
    using assms by (simp add: invalidate_path_filter)
qed

lemma distinct_invalidate:
  "distinct (map fst c) \<Longrightarrow> distinct (map fst (invalidate c fpo))"
proof (cases fpo)
  case None
  then show ?thesis by (simp add: invalidate_def)
next
  case (Some fp)
  assume d: "distinct (map fst c)"
  show ?thesis
  proof (cases "fp = []")
    case True
    with Some show ?thesis by (simp add: invalidate_def)
  next
    case False
    with Some d show ?thesis
      by (simp add: invalidate_path_filter distinct_map_filter)
  qed
qed

text \<open>
  C5. In a cache (a Map, so with distinct keys), \<open>invalidate(filePath)\<close> for a file path
  removes exactly the entries tagged with that path: a key tagged with it misses
  afterwards, a key tagged with another path or with the empty path still hits with its
  payload, and a key that was absent stays absent; \<open>invalidate()\<close> with no argument
  removes every entry.
\<close>

theorem C5_invalidate_selective:
  assumes "distinct (map fst c)" and "fp \<noteq> []"
  shows "(\<forall>key entry. map_of c key = Some entry \<and> filePath entry = fp \<longrightarrow>
            cache_get (invalidate c (Some fp)) key = None)
       \<and> (\<forall>key entry. map_of c key = Some entry \<and> filePath entry \<noteq> fp \<longrightarrow>
            map_of (invalidate c (Some fp)) key = Some entry
            \<and> cache_get (invalidate c (Some fp)) key = Some (data entry))
       \<and> (\<forall>key. map_of c key = None \<longrightarrow> cache_get (invalidate c (Some fp)) key = None)
       \<and> set (invalidate c (Some fp)) = {ke \<in> set c. filePath (snd ke) \<noteq> fp}
       \<and> invalidate c None = []"
proof -
  have sel: "set (invalidate c (Some fp)) = {ke \<in> set c. filePath (snd ke) \<noteq> fp}"
    using assms by (simp add: invalidate_path_filter)
  have clr: "invalidate c None = []"
    by (simp add: invalidate_def)
  show ?thesis
    using sel clr by (simp add: cache_get_def map_of_invalidate_path[OF assms])
qed

theorem C5_invalidate_selective_witness:
  "distinct (map fst example_cache) \<and> ''/repo/src/a.ts'' \<noteq> []
   \<and> cache_get (invalidate example_cache (Some ''/repo/src/a.ts'')) ''blame:/repo/src/a.ts'' = None
   \<and> cache_get (invalidate example_cache (Some ''/repo/src/a.ts'')) ''files:abc123''
       = Some (Files [\<lparr>path = ''src/a.ts'', status = modified\<rparr>])
   \<and> cache_get (invalidate example_cache (Some ''/repo/src/a.ts'')) ''content:abc123:/repo/src/b.ts''
       = Some (Content ''text'')
   \<and> invalidate example_cache None = []"
proof -
  have d: "distinct (map fst example_cache)"
    by (simp add: example_cache_def)
  have n: "''/repo/src/a.ts'' \<noteq> []"
    by simp
  note t = C5_invalidate_selective[OF d n]
  have a: "map_of example_cache ''blame:/repo/src/a.ts'' =
      Some \<lparr>data = Blame [], timestamp = 1, filePath = ''/repo/src/a.ts'', commitHashTag = None\<rparr>
    \<and> filePath \<lparr>data = Blame [], timestamp = 1, filePath = ''/repo/src/a.ts'',
         commitHashTag = None\<rparr> = ''/repo/src/a.ts''"
    by (simp add: example_cache_def)
  have b: "map_of example_cache ''files:abc123'' =
      Some \<lparr>data = Files [\<lparr>path = ''src/a.ts'', status = modified\<rparr>], timestamp = 2,
        filePath = [], commitHashTag = Some ''abc123''\<rparr>
    \<and> filePath \<lparr>data = Files [\<lparr>path = ''src/a.ts'', status = modified\<rparr>], timestamp = 2,
        filePath = [], commitHashTag = Some ''abc123''\<rparr> \<noteq> ''/repo/src/a.ts''"
    by (simp add: example_cache_def)
  have c: "map_of example_cache ''content:abc123:/repo/src/b.ts'' =
      Some \<lparr>data = Content ''text'', timestamp = 3, filePath = ''/repo/src/b.ts'',
        commitHashTag = Some ''abc123''\<rparr>
    \<and> filePath \<lparr>data = Content ''text'', timestamp = 3, filePath = ''/repo/src/b.ts'',
        commitHashTag = Some ''abc123''\<rparr> \<noteq> ''/repo/src/a.ts''"
    by (simp add: example_cache_def)
  from t have t1: "\<forall>key entry. map_of example_cache key = Some entry \<and> filePath entry = ''/repo/src/a.ts'' \<longrightarrow>
            cache_get (invalidate example_cache (Some ''/repo/src/a.ts'')) key = None"
    by (rule conjunct1)
  from t have t2: "\<forall>key entry. map_of example_cache key = Some entry \<and> filePath entry \<noteq> ''/repo/src/a.ts'' \<longrightarrow>
            map_of (invalidate example_cache (Some ''/repo/src/a.ts'')) key = Some entry
            \<and> cache_get (invalidate example_cache (Some ''/repo/src/a.ts'')) key = Some (data entry)"
    by (rule conjunct2[THEN conjunct1])
  from t have t5: "invalidate example_cache None = []"
    by simp
  show ?thesis
    using d n t1[rule_format, OF a] t2[rule_format, OF b] t2[rule_format, OF c] t5 by simp
qed

section \<open>Relative paths\<close>

lemma replaceBackslashes_id: "CHR 0x5C \<notin> set s \<Longrightarrow> replaceBackslashes s = s"
  by (induction s) (auto simp: replaceBackslashes_def)

text \<open>
  C7, as stated, fails. On POSIX the path written with backslashes for \<open>/repo/x\<close> does not start with the root
  \<open>/repo\<close>, yet relativize returns \<open>/repo/x\<close>, not the input; and applying it again
  returns \<open>x\<close>, so twice is not once.
\<close>
theorem C7_relativize_counterexample:
  "\<not> startsWith (path_normalize posix example_backslash_path) (path_normalize posix ''/repo'')
   \<and> getRelativePathForRepo posix example_backslash_path ''/repo'' = ''/repo/x''
   \<and> getRelativePathForRepo posix example_backslash_path ''/repo'' \<noteq> example_backslash_path
   \<and> getRelativePathForRepo posix
        (getRelativePathForRepo posix example_backslash_path ''/repo'') ''/repo'' = ''x''"
  by code_simp

text \<open>
  C7, amended. For every path whose normalized form does not start with the normalized
  repository root, on every platform, relativize returns the input with each backslash
  replaced by a slash (it is a total function: nothing is thrown). When the input has no
  backslash it is returned unchanged, and then applying relativize twice equals applying
  it once.
\<close>
theorem C7_relativize_unmatched:
  assumes "\<not> startsWith (path_normalize P fp) (path_normalize P root)"
  shows "getRelativePathForRepo P fp root = replaceBackslashes fp
       \<and> (CHR 0x5C \<notin> set fp \<longrightarrow>
            getRelativePathForRepo P fp root = fp
            \<and> getRelativePathForRepo P (getRelativePathForRepo P fp root) root
                = getRelativePathForRepo P fp root)"
proof -
  have r: "getRelativePathForRepo P fp root = replaceBackslashes fp"
    using assms by (simp add: getRelativePathForRepo_def Let_def)
  show ?thesis
    using r by (simp add: replaceBackslashes_id)
qed

text \<open>
  The amended C7 at \<open>src/a.ts\<close> and the root \<open>/repo\<close>.
\<close>
theorem C7_relativize_unmatched_witness:
  "\<not> startsWith (path_normalize posix ''src/a.ts'') (path_normalize posix ''/repo'')
   \<and> getRelativePathForRepo posix ''src/a.ts'' ''/repo'' = ''src/a.ts''
   \<and> getRelativePathForRepo posix (getRelativePathForRepo posix ''src/a.ts'' ''/repo'') ''/repo''
       = ''src/a.ts''"
proof -
  have h: "\<not> startsWith (path_normalize posix ''src/a.ts'') (path_normalize posix ''/repo'')"
    by code_simp
  have n: "CHR 0x5C \<notin> set ''src/a.ts''"
    by simp
  from C7_relativize_unmatched[OF h] n
  have "getRelativePathForRepo posix ''src/a.ts'' ''/repo'' = ''src/a.ts''
      \<and> getRelativePathForRepo posix (getRelativePathForRepo posix ''src/a.ts'' ''/repo'') ''/repo''
          = getRelativePathForRepo posix ''src/a.ts'' ''/repo''"
    by blast
  with h show ?thesis by simp
qed

section \<open>Name-status lines\<close>

lemma space_not_digit: "isSpaceJS c \<Longrightarrow> \<not> isDigit c"
  by (auto simp: isSpaceJS_def isDigit_def)

lemma fileStatusOf_letter:
  "c \<in> set ''AMDRT'' \<Longrightarrow> fileStatusOf (c # ds) = letterStatus c"
  by (auto simp: fileStatusOf_def startsWith_def letterStatus_def)

lemma span_digits:
  assumes "list_all isDigit ds" and "r \<noteq> []" and "\<not> isDigit (hd r)"
  shows "takeWhile isDigit (ds @ r) = ds" and "dropWhile isDigit (ds @ r) = r"
proof -
  have a: "\<And>x. x \<in> set ds \<Longrightarrow> isDigit x"
    using assms(1) by (simp add: list_all_iff)
  have b: "takeWhile isDigit r = []" "dropWhile isDigit r = r"
    using assms(2,3) by (cases r; simp)+
  show "takeWhile isDigit (ds @ r) = ds"
    using a b by (simp add: takeWhile_append2)
  show "dropWhile isDigit (ds @ r) = r"
    using a b by (simp add: dropWhile_append2)
qed

lemma span_spaces:
  assumes "list_all isSpaceJS ws" and "p \<noteq> []" and "\<not> isSpaceJS (hd p)"
  shows "takeWhile isSpaceJS (ws @ p) = ws" and "dropWhile isSpaceJS (ws @ p) = p"
proof -
  have a: "\<And>x. x \<in> set ws \<Longrightarrow> isSpaceJS x"
    using assms(1) by (simp add: list_all_iff)
  have b: "takeWhile isSpaceJS p = []" "dropWhile isSpaceJS p = p"
    using assms(2,3) by (cases p; simp)+
  show "takeWhile isSpaceJS (ws @ p) = ws"
    using a b by (simp add: takeWhile_append2)
  show "dropWhile isSpaceJS (ws @ p) = p"
    using a b by (simp add: dropWhile_append2)
qed

lemma parse_line_complete:
  assumes c: "c \<in> set ''AMDRT''" and ds: "list_all isDigit ds"
    and ws: "ws \<noteq> []" "list_all isSpaceJS ws"
    and p: "p \<noteq> []" "\<not> isSpaceJS (hd p)" "\<not> list_ex isLineTerminator p"
  shows "parseNameStatusLine (c # ds @ ws @ p) = Some \<lparr>path = p, status = letterStatus c\<rparr>"
proof -
  have hdws: "isSpaceJS (hd ws)"
    using ws by (cases ws) simp_all
  have r: "ws @ p \<noteq> []" "\<not> isDigit (hd (ws @ p))"
    using ws hdws by (simp_all add: space_not_digit)
  have d: "takeWhile isDigit (ds @ ws @ p) = ds" "dropWhile isDigit (ds @ ws @ p) = ws @ p"
    using span_digits[OF ds r] by simp_all
  have s: "takeWhile isSpaceJS (ws @ p) = ws" "dropWhile isSpaceJS (ws @ p) = p"
    using span_spaces[OF ws(2) p(1) p(2)] by simp_all
  have "matchNameStatus (c # ds @ ws @ p) = Some (c # ds, p)"
    using c ws(1) p(1) p(3) unfolding matchNameStatus_def by (simp add: d s Let_def)
  then show ?thesis
    using c by (simp add: parseNameStatusLine_def fileStatusOf_letter)
qed

lemma parse_line_sound:
  assumes "parseNameStatusLine line = Some f"
  shows "\<exists>c ds ws. line = c # ds @ ws @ path f \<and> c \<in> set ''AMDRT'' \<and> list_all isDigit ds
           \<and> ws \<noteq> [] \<and> list_all isSpaceJS ws \<and> path f \<noteq> []
           \<and> \<not> list_ex isLineTerminator (path f) \<and> status f = letterStatus c"
proof -
  from assms obtain st fp where m: "matchNameStatus line = Some (st, fp)"
    and f: "f = \<lparr>path = fp, status = fileStatusOf st\<rparr>"
    by (auto simp: parseNameStatusLine_def split: option.splits)
  from m obtain c r where line: "line = c # r" and c: "c \<in> set ''AMDRT''"
    unfolding matchNameStatus_def by (cases line) (simp_all split: if_splits)
  define ds where "ds = takeWhile isDigit r"
  define r1 where "r1 = dropWhile isDigit r"
  define ws where "ws = takeWhile isSpaceJS r1"
  define rest where "rest = dropWhile isSpaceJS r1"
  have r: "r = ds @ ws @ rest"
    by (simp add: ds_def r1_def ws_def rest_def)
  have dsd: "list_all isDigit ds"
    unfolding ds_def list_all_iff by (auto dest: set_takeWhileD)
  have wsd: "list_all isSpaceJS ws"
    unfolding ws_def list_all_iff by (auto dest: set_takeWhileD)
  have st: "st = c # ds"
    using m c unfolding matchNameStatus_def line
    by (auto simp: Let_def ds_def split: if_splits)
  have stat: "status f = letterStatus c"
    using f st c by (simp add: fileStatusOf_letter)
  have wsne: "ws \<noteq> []"
    using m c unfolding matchNameStatus_def line
    by (auto simp: Let_def ws_def r1_def split: if_splits)
  show ?thesis
  proof (cases "rest = []")
    case False
    have "fp = rest \<and> \<not> list_ex isLineTerminator rest"
      using m c False wsne unfolding matchNameStatus_def line
      by (simp add: Let_def ws_def[symmetric] r1_def[symmetric] rest_def[symmetric]
          split: if_splits)
    then show ?thesis
      using line r c dsd wsne wsd False stat f by auto
  next
    case True
    have k: "fp = [last ws] \<and> 2 \<le> length ws \<and> \<not> isLineTerminator (last ws)"
      using m c True wsne unfolding matchNameStatus_def line
      by (simp add: Let_def ws_def[symmetric] r1_def[symmetric] rest_def[symmetric]
          split: if_splits)
    have bl: "butlast ws \<noteq> []"
      using k by (cases ws rule: rev_cases) auto
    have "line = c # ds @ butlast ws @ path f"
      using line r True k f wsne by simp
    moreover have "list_all isSpaceJS (butlast ws)"
      using wsd unfolding list_all_iff by (auto dest: in_set_butlastD)
    ultimately show ?thesis
      using c dsd bl k stat f by (intro exI[of _ c] exI[of _ ds] exI[of _ "butlast ws"]) simp
  qed
qed

text \<open>
  C6, as stated, fails on the shape of the status code. The rename line
  \<open>R100<TAB>old.ts<TAB>new.ts\<close> has a four-character code: the contract of the
  specification rejects it, the code parses it. The line \<open>MM<TAB>src/a.ts\<close> has a
  two-character code: the contract accepts it, the code skips it.
\<close>
theorem C6_name_status_counterexample:
  "parseNameStatusLine example_rename_line
     = Some \<lparr>path = ''old.ts'' @ [CHR 0x09] @ ''new.ts'', status = modified\<rparr>
   \<and> spec_parseNameStatusLine example_rename_line = None
   \<and> parseNameStatusLine example_combined_line = None
   \<and> spec_parseNameStatusLine example_combined_line = Some \<lparr>path = ''src/a.ts'', status = modified\<rparr>"
  by code_simp

section \<open>The cached queries\<close>

lemma cache_get_set_same: "cache_get (cache_set c t k d fp ch) k = Some d"
  by (simp add: cache_get_def cache_set_def update_conv')

lemma map_of_set_same:
  "map_of (cache_set c t k d fp ch) k
     = Some \<lparr>data = d, timestamp = t, filePath = fp, commitHashTag = ch\<rparr>"
  by (simp add: cache_set_def update_conv')

lemma distinct_cache_set: "distinct (map fst c) \<Longrightarrow> distinct (map fst (cache_set c t k d fp ch))"
  by (simp add: cache_set_def distinct_update)

lemma getChangedFiles_hit:
  assumes "cache_get (cache s) (''files:'' @ h) = Some cached" and "truthy cached"
  shows "getChangedFiles P env s h fpo = (cached, s)"
  using assms by (simp add: getChangedFiles_def)

lemma getChangedFiles_miss:
  assumes miss: "\<not> (\<exists>c. cache_get (cache s) (''files:'' @ h) = Some c \<and> truthy c)"
    and repo: "repoForOptionalFile P s fpo = Some git"
    and out: "git_show env git [''--name-status'', ''--pretty=format:'', h] = Some out"
  shows "getChangedFiles P env s h fpo =
     (Files (parseNameStatus out),
      s\<lparr>cache := cache_set (cache s) (date_now env) (''files:'' @ h)
                    (Files (parseNameStatus out)) [] (Some h),
        gitCalls := gitCalls s @ [(git, [''--name-status'', ''--pretty=format:'', h])]\<rparr>)"
proof -
  have "getChangedFiles P env s h fpo = getChangedFiles_query P env s h fpo"
    using miss by (auto simp: getChangedFiles_def split: option.splits)
  then show ?thesis
    using repo out by (simp add: getChangedFiles_query_def record_call_def Let_def)
qed

lemma kept_by_path_invalidation:
  assumes d: "distinct (map fst (cache s))"
    and e: "map_of (cache s) key = Some entry" "filePath entry = []"
    and p: "p \<noteq> []"
  shows "cache_get (cache (invalidateCache s (Some p))) key = Some (data entry)"
proof -
  have "map_of (invalidate (cache s) (Some p)) key = Some entry"
    using e p by (simp add: map_of_invalidate_path[OF d p])
  then show ?thesis
    by (simp add: invalidateCache_def cache_get_def)
qed

text \<open>
  C8. The cache key of getChangedFiles is made of the commit hash alone. A call that
  finds a cached list returns it, whatever the file argument, and leaves the service as
  it was, so no query is sent. After a call that missed and was answered by the
  repository, the list is stored under that key with the empty file tag: a second call
  with any file argument returns the same list without a query; so does a call after
  \<open>invalidate(somePath)\<close> for any file path; after \<open>invalidate()\<close> the entry is gone.
\<close>
theorem C8_changed_files_cache:
  assumes d: "distinct (map fst (cache s))"
  shows "(\<forall>cached env fpo. cache_get (cache s) (''files:'' @ h) = Some cached \<and> truthy cached \<longrightarrow>
            getChangedFiles P env s h fpo = (cached, s))
       \<and> (\<forall>env fpo git out.
            \<not> (\<exists>c. cache_get (cache s) (''files:'' @ h) = Some c \<and> truthy c)
            \<and> repoForOptionalFile P s fpo = Some git
            \<and> git_show env git [''--name-status'', ''--pretty=format:'', h] = Some out \<longrightarrow>
            (\<exists>s' entry. getChangedFiles P env s h fpo = (Files (parseNameStatus out), s')
               \<and> map_of (cache s') (''files:'' @ h) = Some entry
               \<and> data entry = Files (parseNameStatus out) \<and> filePath entry = []
               \<and> (\<forall>env' fpo'. getChangedFiles P env' s' h fpo' = (Files (parseNameStatus out), s'))
               \<and> (\<forall>p env' fpo'. p \<noteq> [] \<longrightarrow>
                     getChangedFiles P env' (invalidateCache s' (Some p)) h fpo'
                       = (Files (parseNameStatus out), invalidateCache s' (Some p)))
               \<and> cache_get (cache (invalidateCache s' None)) (''files:'' @ h) = None))"
proof (intro conjI allI impI)
  fix cached env fpo
  assume "cache_get (cache s) (''files:'' @ h) = Some cached \<and> truthy cached"
  then show "getChangedFiles P env s h fpo = (cached, s)"
    by (simp add: getChangedFiles_hit)
next
  fix env :: git_env and fpo git out
  assume a: "\<not> (\<exists>c. cache_get (cache s) (''files:'' @ h) = Some c \<and> truthy c)
            \<and> repoForOptionalFile P s fpo = Some git
            \<and> git_show env git [''--name-status'', ''--pretty=format:'', h] = Some out"
  define fs where "fs = parseNameStatus out"
  define entry where "entry =
     \<lparr>data = Files fs, timestamp = date_now env, filePath = [], commitHashTag = Some h\<rparr>"
  define s' where "s' = s\<lparr>cache := cache_set (cache s) (date_now env) (''files:'' @ h)
                    (Files fs) [] (Some h),
        gitCalls := gitCalls s @ [(git, [''--name-status'', ''--pretty=format:'', h])]\<rparr>"
  have first: "getChangedFiles P env s h fpo = (Files fs, s')"
    using a getChangedFiles_miss[of s h P fpo git env out] by (simp add: s'_def fs_def)
  have m: "map_of (cache s') (''files:'' @ h) = Some entry"
    by (simp add: s'_def entry_def map_of_set_same)
  have g: "cache_get (cache s') (''files:'' @ h) = Some (Files fs)"
    by (simp add: s'_def cache_get_set_same)
  have d': "distinct (map fst (cache s'))"
    using d by (simp add: s'_def distinct_cache_set)
  have second: "getChangedFiles P env' s' h fpo' = (Files fs, s')" for env' fpo'
    using g by (simp add: getChangedFiles_hit)
  have kept: "getChangedFiles P env' (invalidateCache s' (Some p)) h fpo'
      = (Files fs, invalidateCache s' (Some p))" if "p \<noteq> []" for p env' fpo'
  proof -
    have "cache_get (cache (invalidateCache s' (Some p))) (''files:'' @ h) = Some (data entry)"
      using kept_by_path_invalidation[OF d' m _ that] by (simp add: entry_def)
    then show ?thesis
      by (simp add: getChangedFiles_hit entry_def)
  qed
  have gone: "cache_get (cache (invalidateCache s' None)) (''files:'' @ h) = None"
    by (simp add: invalidateCache_def invalidate_def cache_get_def)
  show "\<exists>s' entry. getChangedFiles P env s h fpo = (Files (parseNameStatus out), s')
               \<and> map_of (cache s') (''files:'' @ h) = Some entry
               \<and> data entry = Files (parseNameStatus out) \<and> filePath entry = []
               \<and> (\<forall>env' fpo'. getChangedFiles P env' s' h fpo' = (Files (parseNameStatus out), s'))
               \<and> (\<forall>p env' fpo'. p \<noteq> [] \<longrightarrow>
                     getChangedFiles P env' (invalidateCache s' (Some p)) h fpo'
                       = (Files (parseNameStatus out), invalidateCache s' (Some p)))
               \<and> cache_get (cache (invalidateCache s' None)) (''files:'' @ h) = None"
    using first m second kept gone unfolding fs_def[symmetric]
    by (intro exI[of _ s'] exI[of _ entry]) (simp add: entry_def)
qed

lemma example_parse: "parseNameStatus example_name_status = example_files"
  by code_simp

text \<open>
  C8 on a service with an empty cache: the first call for commit \<open>abc123\<close> asks the
  repository; the second, for another file, and the one after \<open>invalidate(path)\<close> do not.
\<close>
theorem C8_changed_files_cache_witness:
  "distinct (map fst (cache example_service))
   \<and> fst (getChangedFiles posix example_env example_service ''abc123'' (Some ''/repo/src/a.ts''))
       = Files example_files
   \<and> getChangedFiles posix example_env
        (snd (getChangedFiles posix example_env example_service ''abc123'' (Some ''/repo/src/a.ts'')))
        ''abc123'' (Some ''/repo/src/b.ts'')
       = (Files example_files,
          snd (getChangedFiles posix example_env example_service ''abc123'' (Some ''/repo/src/a.ts'')))
   \<and> fst (getChangedFiles posix example_env
        (invalidateCache
          (snd (getChangedFiles posix example_env example_service ''abc123'' (Some ''/repo/src/a.ts'')))
          (Some ''/repo/src/a.ts''))
        ''abc123'' None)
       = Files example_files
   \<and> cache_get (cache (invalidateCache
          (snd (getChangedFiles posix example_env example_service ''abc123'' (Some ''/repo/src/a.ts'')))
          None)) ''files:abc123'' = None"
proof -
  have d: "distinct (map fst (cache example_service))"
    by (simp add: example_service_def)
  have miss: "\<not> (\<exists>c. cache_get (cache example_service) (''files:'' @ ''abc123'') = Some c \<and> truthy c)"
    by (simp add: example_service_def cache_get_def)
  have repo: "repoForOptionalFile posix example_service (Some ''/repo/src/a.ts'') = Some ''/repo''"
    by code_simp
  have out: "git_show example_env ''/repo'' [''--name-status'', ''--pretty=format:'', ''abc123'']
      = Some example_name_status"
    by (simp add: example_env_def)
  note t = C8_changed_files_cache[OF d, of "''abc123''" posix, THEN conjunct2, rule_format,
      OF conjI[OF miss conjI[OF repo out]]]
  then obtain s' entry where
    first: "getChangedFiles posix example_env example_service ''abc123'' (Some ''/repo/src/a.ts'')
        = (Files (parseNameStatus example_name_status), s')"
    and second: "\<forall>env' fpo'. getChangedFiles posix env' s' ''abc123'' fpo'
        = (Files (parseNameStatus example_name_status), s')"
    and kept: "\<forall>p env' fpo'. p \<noteq> [] \<longrightarrow>
        getChangedFiles posix env' (invalidateCache s' (Some p)) ''abc123'' fpo'
          = (Files (parseNameStatus example_name_status), invalidateCache s' (Some p))"
    and gone: "cache_get (cache (invalidateCache s' None)) (''files:'' @ ''abc123'') = None"
    by blast
  have k: "getChangedFiles posix example_env (invalidateCache s' (Some ''/repo/src/a.ts''))
      ''abc123'' None
      = (Files (parseNameStatus example_name_status), invalidateCache s' (Some ''/repo/src/a.ts''))"
    using kept by simp
  show ?thesis
    using d first second k gone by (simp add: example_parse)
qed

lemma getRepoForFile_frame:
  "workspaceRoot s' = workspaceRoot s \<Longrightarrow> isGitRepo s' = isGitRepo s \<Longrightarrow>
   submoduleRepos s' = submoduleRepos s \<Longrightarrow> getRepoForFile P s' fp = getRepoForFile P s fp"
  by (auto simp: getRepoForFile_def split: option.splits)

lemma getFileContent_miss:
  assumes miss: "\<not> (\<exists>c. cache_get (cache s) (''content:'' @ h @ '':'' @ fp) = Some c \<and> truthy c)"
  shows "getFileContent P env s h fp = getFileContent_query P env s h fp"
  using miss by (auto simp: getFileContent_def split: option.splits)

lemma getFileContent_query_calls:
  assumes "getRepoForFile P s fp = Some root"
  shows "gitCalls (snd (getFileContent_query P env s h fp))
     = gitCalls s @ [(root, [h @ '':'' @ getRelativePathForRepo P fp root])]"
  using assms
  by (simp add: getFileContent_query_def record_call_def Let_def split: option.splits)

lemma query_no_repo:
  "getRepoForFile P s fp = None \<Longrightarrow> getFileContent_query P env s h fp = (Content [], s)"
  by (simp add: getFileContent_query_def)

lemma query_rejected:
  "getRepoForFile P s fp = Some root \<Longrightarrow>
   git_show env root [h @ '':'' @ getRelativePathForRepo P fp root] = None \<Longrightarrow>
   getFileContent_query P env s h fp
     = (Content [], record_call s root [h @ '':'' @ getRelativePathForRepo P fp root])"
  by (simp add: getFileContent_query_def Let_def)

lemma query_answered:
  "getRepoForFile P s fp = Some root \<Longrightarrow>
   git_show env root [h @ '':'' @ getRelativePathForRepo P fp root] = Some content \<Longrightarrow>
   getFileContent_query P env s h fp
     = (Content content,
        (record_call s root [h @ '':'' @ getRelativePathForRepo P fp root])
          \<lparr>cache := cache_set (cache s) (date_now env) (''content:'' @ h @ '':'' @ fp)
             (Content content) fp (Some h)\<rparr>)"
  by (simp add: getFileContent_query_def Let_def record_call_def)

lemma getFileContent_empty_state:
  assumes r: "getFileContent P env s h fp = (Content [], s')"
  shows "\<not> (\<exists>c. cache_get (cache s') (''content:'' @ h @ '':'' @ fp) = Some c \<and> truthy c)
       \<and> workspaceRoot s' = workspaceRoot s \<and> isGitRepo s' = isGitRepo s
       \<and> submoduleRepos s' = submoduleRepos s"
proof -
  have miss: "\<not> (\<exists>c. cache_get (cache s) (''content:'' @ h @ '':'' @ fp) = Some c \<and> truthy c)"
  proof
    assume "\<exists>c. cache_get (cache s) (''content:'' @ h @ '':'' @ fp) = Some c \<and> truthy c"
    then obtain c where c: "cache_get (cache s) (''content:'' @ h @ '':'' @ fp) = Some c" "truthy c"
      by blast
    then have "getFileContent P env s h fp = (c, s)"
      by (simp add: getFileContent_def)
    with r have "c = Content []" by simp
    with c(2) show False by simp
  qed
  then have q: "getFileContent_query P env s h fp = (Content [], s')"
    using r by (simp add: getFileContent_miss)
  show ?thesis
  proof (cases "getRepoForFile P s fp")
    case None
    from query_no_repo[OF None, of env h] q have "s' = s" by simp
    with miss show ?thesis by simp
  next
    case (Some root)
    note repo = this
    show ?thesis
    proof (cases "git_show env root [h @ '':'' @ getRelativePathForRepo P fp root]")
      case None
      from query_rejected[OF repo None] q
      have "s' = record_call s root [h @ '':'' @ getRelativePathForRepo P fp root]" by simp
      then have "cache s' = cache s \<and> workspaceRoot s' = workspaceRoot s
          \<and> isGitRepo s' = isGitRepo s \<and> submoduleRepos s' = submoduleRepos s"
        by (simp add: record_call_def)
      with miss show ?thesis by simp
    next
      case (Some content)
      from query_answered[OF repo Some] q
      have e: "content = []"
        and s': "s' = (record_call s root [h @ '':'' @ getRelativePathForRepo P fp root])
          \<lparr>cache := cache_set (cache s) (date_now env) (''content:'' @ h @ '':'' @ fp)
             (Content content) fp (Some h)\<rparr>"
        by simp_all
      have g: "cache_get (cache s') (''content:'' @ h @ '':'' @ fp) = Some (Content [])"
        unfolding s' e by (simp add: cache_get_set_same)
      have "workspaceRoot s' = workspaceRoot s \<and> isGitRepo s' = isGitRepo s
          \<and> submoduleRepos s' = submoduleRepos s"
        unfolding s' by (simp add: record_call_def)
      with g show ?thesis by simp
    qed
  qed
qed

text \<open>
  C9. When the repository of the file resolves and getFileContent has returned the empty
  string (the blob was empty, or the query failed because the path was absent), the cache
  then holds nothing truthy under the key, and the next call with the same arguments,
  whatever the repository answers by then, sends the query again; the state where the
  next call's own result is empty is of the same kind, so this holds for every later
  call.
\<close>
theorem C9_empty_content_not_cached:
  assumes r: "getFileContent P env s h fp = (Content [], s')"
    and repo: "getRepoForFile P s fp = Some root"
  shows "\<not> (\<exists>c. cache_get (cache s') (''content:'' @ h @ '':'' @ fp) = Some c \<and> truthy c)
       \<and> getRepoForFile P s' fp = Some root
       \<and> (\<forall>env'. gitCalls (snd (getFileContent P env' s' h fp))
             = gitCalls s' @ [(root, [h @ '':'' @ getRelativePathForRepo P fp root])])"
proof -
  note st = getFileContent_empty_state[OF r]
  have miss': "\<not> (\<exists>c. cache_get (cache s') (''content:'' @ h @ '':'' @ fp) = Some c \<and> truthy c)"
    using st by (rule conjunct1)
  have fr: "workspaceRoot s' = workspaceRoot s" "isGitRepo s' = isGitRepo s"
    "submoduleRepos s' = submoduleRepos s"
    using st by simp_all
  have repo': "getRepoForFile P s' fp = Some root"
    using getRepoForFile_frame[OF fr] repo by simp
  have calls: "gitCalls (snd (getFileContent P env' s' h fp))
      = gitCalls s' @ [(root, [h @ '':'' @ getRelativePathForRepo P fp root])]" for env'
    unfolding getFileContent_miss[OF miss'] by (rule getFileContent_query_calls[OF repo'])
  show ?thesis
    by (intro conjI allI miss' repo' calls)
qed

text \<open>
  C9 on an empty blob: both the first and the second call for \<open>src/empty.txt\<close> send the
  query.
\<close>
theorem C9_empty_content_not_cached_witness:
  "fst (getFileContent posix example_env example_service ''abc123'' ''/repo/src/empty.txt'')
     = Content []
   \<and> getRepoForFile posix example_service ''/repo/src/empty.txt'' = Some ''/repo''
   \<and> gitCalls (snd (getFileContent posix example_env example_service ''abc123''
        ''/repo/src/empty.txt'')) = [(''/repo'', [''abc123:src/empty.txt''])]
   \<and> gitCalls (snd (getFileContent posix example_env
        (snd (getFileContent posix example_env example_service ''abc123'' ''/repo/src/empty.txt''))
        ''abc123'' ''/repo/src/empty.txt''))
       = [(''/repo'', [''abc123:src/empty.txt'']), (''/repo'', [''abc123:src/empty.txt''])]"
proof -
  define s' where "s' = snd (getFileContent posix example_env example_service ''abc123''
      ''/repo/src/empty.txt'')"
  have f: "fst (getFileContent posix example_env example_service ''abc123''
      ''/repo/src/empty.txt'') = Content []"
    by code_simp
  have r: "getFileContent posix example_env example_service ''abc123'' ''/repo/src/empty.txt''
      = (Content [], s')"
    using f by (simp add: s'_def prod_eq_iff)
  have repo: "getRepoForFile posix example_service ''/repo/src/empty.txt'' = Some ''/repo''"
    by code_simp
  have c1: "gitCalls s' = [(''/repo'', [''abc123:src/empty.txt''])]"
    unfolding s'_def by code_simp
  have rel: "getRelativePathForRepo posix ''/repo/src/empty.txt'' ''/repo'' = ''src/empty.txt''"
    by code_simp
  from C9_empty_content_not_cached[OF r repo]
  have "gitCalls (snd (getFileContent posix example_env s' ''abc123'' ''/repo/src/empty.txt''))
      = gitCalls s' @ [(''/repo'', [''abc123'' @ '':'' @
          getRelativePathForRepo posix ''/repo/src/empty.txt'' ''/repo''])]"
    by blast
  then show ?thesis
    using f repo c1 by (simp add: rel s'_def[symmetric])
qed

section \<open>Sorting\<close>

lemma mset_insort_cmp: "mset (insort_cmp cmp x xs) = add_mset x (mset xs)"
  by (induction xs) simp_all

lemma mset_js_sort: "mset (js_sort cmp xs) = mset xs"
  unfolding js_sort_def by (induction xs) (simp_all add: mset_insort_cmp)

lemma set_js_sort: "set (js_sort cmp xs) = set xs"
  using mset_js_sort[of cmp xs] by (metis set_mset_mset)

lemma length_js_sort: "length (js_sort cmp xs) = length xs"
  using mset_js_sort[of cmp xs] by (metis size_mset)

lemma set_insort_cmp: "set (insort_cmp cmp x xs) = insert x (set xs)"
  using mset_insort_cmp[of cmp x xs] by (metis set_mset_add_mset_insert set_mset_mset)

lemma sorted_insort_cmp:
  assumes c: "consistent_cmp cmp" and s: "sorted_wrt (\<lambda>a b. cmp a b \<le> 0) xs"
  shows "sorted_wrt (\<lambda>a b. cmp a b \<le> 0) (insort_cmp cmp x xs)"
  using s
proof (induction xs)
  case Nil
  show ?case by simp
next
  case (Cons y ys)
  have total: "cmp x y \<le> 0 \<or> cmp y x \<le> 0"
  proof -
    from c have "\<forall>a b. cmp a b \<le> 0 \<or> cmp b a \<le> 0"
      unfolding consistent_cmp_def by (rule conjunct1)
    then show ?thesis by blast
  qed
  have trans: "cmp a d \<le> 0" if "cmp a b \<le> 0" "cmp b d \<le> 0" for a b d
  proof -
    from c have "\<forall>a b d. cmp a b \<le> 0 \<and> cmp b d \<le> 0 \<longrightarrow> cmp a d \<le> 0"
      unfolding consistent_cmp_def by (rule conjunct2)
    with that show ?thesis by blast
  qed
  have ys: "sorted_wrt (\<lambda>a b. cmp a b \<le> 0) ys" and y: "\<forall>z \<in> set ys. cmp y z \<le> 0"
    using Cons.prems by simp_all
  show ?case
  proof (cases "cmp x y \<le> 0")
    case True
    have "cmp x z \<le> 0" if "z \<in> set ys" for z
      using trans[OF True] y that by blast
    with True Cons.prems show ?thesis by simp
  next
    case False
    then have yx: "cmp y x \<le> 0" using total by simp
    have r: "sorted_wrt (\<lambda>a b. cmp a b \<le> 0) (insort_cmp cmp x ys)"
      using Cons.IH[OF ys] .
    have "\<forall>z \<in> set (insort_cmp cmp x ys). cmp y z \<le> 0"
      using yx y by (simp add: set_insort_cmp)
    with r False show ?thesis by simp
  qed
qed

lemma sorted_js_sort:
  "consistent_cmp cmp \<Longrightarrow> sorted_wrt (\<lambda>a b. cmp a b \<le> 0) (js_sort cmp xs)"
  unfolding js_sort_def by (induction xs) (simp_all add: sorted_insort_cmp)

lemma js_sort_sorted_id:
  "sorted_wrt (\<lambda>a b. cmp a b \<le> 0) xs \<Longrightarrow> js_sort cmp xs = xs"
proof (induction xs)
  case Nil
  show ?case by (simp add: js_sort_def)
next
  case (Cons x xs)
  then have "js_sort cmp xs = xs" by simp
  then have "js_sort cmp (x # xs) = insort_cmp cmp x xs"
    by (simp add: js_sort_def)
  also have "\<dots> = x # xs"
    using Cons.prems by (cases xs) simp_all
  finally show ?case .
qed

lemma consistent_cmp_on:
  "consistent_cmp cmp \<Longrightarrow> consistent_cmp (\<lambda>a b. cmp (f a) (f b))"
  unfolding consistent_cmp_def by blast

lemma consistent_codeUnitCompare: "consistent_cmp codeUnitCompare"
  unfolding consistent_cmp_def codeUnitCompare_def by auto

text \<open>
  C10. buildFileTree sorts the caller's array in place: after the call the array is the
  stable sort of the input by path, a permutation of it; with a consistent
  \<open>localeCompare\<close> it is ordered by path, and it equals the input only when the input was
  already ordered.
\<close>
theorem C10_build_sorts_input:
  "snd (buildFileTree P lc allExpanded cfp files h) = js_sort (\<lambda>a b. lc (path a) (path b)) files
   \<and> mset (snd (buildFileTree P lc allExpanded cfp files h)) = mset files
   \<and> (consistent_cmp lc \<longrightarrow>
        sorted_wrt (\<lambda>a b. lc (path a) (path b) \<le> 0) (snd (buildFileTree P lc allExpanded cfp files h))
        \<and> ((snd (buildFileTree P lc allExpanded cfp files h) = files)
             = sorted_wrt (\<lambda>a b. lc (path a) (path b) \<le> 0) files))"
proof -
  have e: "snd (buildFileTree P lc allExpanded cfp files h)
      = js_sort (\<lambda>a b. lc (path a) (path b)) files"
    by (simp add: buildFileTree_def Let_def)
  have s: "sorted_wrt (\<lambda>a b. lc (path a) (path b) \<le> 0) (js_sort (\<lambda>a b. lc (path a) (path b)) files)"
    if "consistent_cmp lc"
    using sorted_js_sort[OF consistent_cmp_on[OF that, of path], of files] .
  have i: "(js_sort (\<lambda>a b. lc (path a) (path b)) files = files)
      = sorted_wrt (\<lambda>a b. lc (path a) (path b) \<le> 0) files" if "consistent_cmp lc"
    using s[OF that] js_sort_sorted_id[of "\<lambda>a b. lc (path a) (path b)" files] by auto
  show ?thesis
    unfolding e using s i by (simp add: mset_js_sort)
qed

text \<open>
  C10 on the three files of the example: the caller's array comes back reordered.
\<close>
theorem C10_build_sorts_input_witness:
  "consistent_cmp codeUnitCompare
   \<and> snd (buildFileTree posix codeUnitCompare False None example_files ''abc123'')
       = [\<lparr>path = ''old.ts'', status = deleted\<rparr>, \<lparr>path = ''src/a.ts'', status = modified\<rparr>,
          \<lparr>path = ''src/b.ts'', status = added\<rparr>]
   \<and> snd (buildFileTree posix codeUnitCompare False None example_files ''abc123'') \<noteq> example_files
   \<and> sorted_wrt (\<lambda>a b. codeUnitCompare (path a) (path b) \<le> 0)
        (snd (buildFileTree posix codeUnitCompare False None example_files ''abc123''))"
proof -
  have v: "js_sort (\<lambda>a b. codeUnitCompare (path a) (path b)) example_files
      = [\<lparr>path = ''old.ts'', status = deleted\<rparr>, \<lparr>path = ''src/a.ts'', status = modified\<rparr>,
         \<lparr>path = ''src/b.ts'', status = added\<rparr>]"
    by (simp add: js_sort_def example_files_def codeUnitCompare_def)
  note t = C10_build_sorts_input[of posix codeUnitCompare False None example_files "''abc123''"]
  from t have e: "snd (buildFileTree posix codeUnitCompare False None example_files ''abc123'')
      = js_sort (\<lambda>a b. codeUnitCompare (path a) (path b)) example_files"
    by (rule conjunct1)
  from t consistent_codeUnitCompare
  have s: "sorted_wrt (\<lambda>a b. codeUnitCompare (path a) (path b) \<le> 0)
      (snd (buildFileTree posix codeUnitCompare False None example_files ''abc123''))"
    by blast
  have n: "snd (buildFileTree posix codeUnitCompare False None example_files ''abc123'')
      \<noteq> example_files"
    unfolding e v by (simp add: example_files_def)
  show ?thesis
    using consistent_codeUnitCompare e v n s by simp
qed

section \<open>Order of the children of a folder\<close>

lemma consistent_itemCompare:
  assumes c: "consistent_cmp lc"
  shows "consistent_cmp (itemCompare lc)"
proof -
  from c have total: "lc a b \<le> 0 \<or> lc b a \<le> 0" for a b
    unfolding consistent_cmp_def by blast
  from c have trans: "lc a b \<le> 0 \<Longrightarrow> lc b d \<le> 0 \<Longrightarrow> lc a d \<le> 0" for a b d
    unfolding consistent_cmp_def by blast
  have t1: "itemCompare lc a b \<le> 0 \<or> itemCompare lc b a \<le> 0" for a b
    using total[of "label a" "label b"] by (simp add: itemCompare_def)
  have t2: "itemCompare lc a d \<le> 0"
    if "itemCompare lc a b \<le> 0" "itemCompare lc b d \<le> 0" for a b d
  proof (cases "isFolder a = isFolder d")
    case True
    show ?thesis
    proof (cases "isFolder b = isFolder a")
      case same: True
      with that True have "lc (label a) (label b) \<le> 0" "lc (label b) (label d) \<le> 0"
        by (simp_all add: itemCompare_def split: if_splits)
      then have "lc (label a) (label d) \<le> 0" by (rule trans)
      with True show ?thesis by (simp add: itemCompare_def)
    next
      case False
      with that True show ?thesis
        by (cases "isFolder a") (simp_all add: itemCompare_def split: if_splits)
    qed
  next
    case False
    with that show ?thesis
      by (cases "isFolder a"; cases "isFolder b") (simp_all add: itemCompare_def split: if_splits)
  qed
  show ?thesis
    unfolding consistent_cmp_def using t1 t2 by blast
qed

lemma folders_first:
  assumes "sorted_wrt (\<lambda>a b. itemCompare lc a b \<le> 0) xs"
  shows "xs = filter isFolder xs @ filter (\<lambda>i. \<not> isFolder i) xs"
  using assms
proof (induction xs)
  case Nil
  show ?case by simp
next
  case (Cons x xs)
  then have ih: "xs = filter isFolder xs @ filter (\<lambda>i. \<not> isFolder i) xs"
    by simp
  show ?case
  proof (cases "isFolder x")
    case True
    with ih show ?thesis by simp
  next
    case False
    have "\<not> isFolder y" if "y \<in> set xs" for y
    proof
      assume "isFolder y"
      with False have "itemCompare lc x y = 1" by (simp add: itemCompare_def)
      moreover have "itemCompare lc x y \<le> 0" using Cons.prems that by simp
      ultimately show False by simp
    qed
    then have "filter isFolder xs = []" "filter (\<lambda>i. \<not> isFolder i) xs = xs"
      by (simp_all add: filter_empty_conv filter_id_conv)
    with False show ?thesis by simp
  qed
qed

lemma group_sorted_by_label:
  assumes "sorted_wrt (\<lambda>a b. itemCompare lc a b \<le> 0) xs"
  shows "sorted_wrt (\<lambda>a b. lc (label a) (label b) \<le> 0) (filter isFolder xs)"
    and "sorted_wrt (\<lambda>a b. lc (label a) (label b) \<le> 0) (filter (\<lambda>i. \<not> isFolder i) xs)"
proof -
  have f: "sorted_wrt (\<lambda>a b. itemCompare lc a b \<le> 0) (filter isFolder xs)"
    and g: "sorted_wrt (\<lambda>a b. itemCompare lc a b \<le> 0) (filter (\<lambda>i. \<not> isFolder i) xs)"
    using assms by (simp_all add: sorted_wrt_filter)
  show "sorted_wrt (\<lambda>a b. lc (label a) (label b) \<le> 0) (filter isFolder xs)"
    by (rule sorted_wrt_mono_rel[OF _ f]) (simp add: itemCompare_def)
  show "sorted_wrt (\<lambda>a b. lc (label a) (label b) \<le> 0) (filter (\<lambda>i. \<not> isFolder i) xs)"
    by (rule sorted_wrt_mono_rel[OF _ g]) (simp add: itemCompare_def)
qed

section \<open>The blame parser: metadata of a commit\<close>

text \<open>
  C1 on the code. The commit of the example prints author, author-time and summary after
  its first header and a bare header later. The parser pushes the record of a header
  line before it reads the metadata that follows, so the first record carries the
  placeholders \<open>Unknown\<close>, the parse time and the empty summary, and the second the real
  values: the two records of the commit differ.
\<close>
theorem C1_first_record_placeholder:
  "parseBlameOutput clock example_toISO example_blame
     = Inr [\<lparr>lineNumber = 1, commitHash = example_hash, author = ''Unknown'', date = clock 0,
              summary = []\<rparr>,
            \<lparr>lineNumber = 2, commitHash = example_hash, author = ''Alice'',
              date = ''1970-01-01T00:16:40.000Z'', summary = ''fix''\<rparr>]"
  by code_simp

section \<open>The blame parser: shape of the output\<close>

lemma split_by_nonempty: "split_by p s \<noteq> []"
  by (induction s) (simp_all split: list.splits)

lemma split_by_prefix:
  "\<forall>c \<in> set w. \<not> p c \<Longrightarrow> p s \<Longrightarrow> split_by p (w @ s # r) = w # split_by p r"
  by (induction w) simp_all

lemma hd_split_by: "hd (split_by p s) = takeWhile (\<lambda>c. \<not> p c) s"
proof (induction s)
  case Nil
  show ?case by simp
next
  case (Cons c cs)
  show ?case
  proof (cases "p c")
    case True
    then show ?thesis by simp
  next
    case False
    obtain w ws where w: "split_by p cs = w # ws"
      using split_by_nonempty[of p cs] by (cases "split_by p cs") auto
    with Cons False show ?thesis by simp
  qed
qed

lemma hex_not_space: "isHexLower c \<Longrightarrow> c \<noteq> CHR '' ''"
  by (auto simp: isHexLower_def)

lemma digit_not_space: "isDigit c \<Longrightarrow> c \<noteq> CHR '' ''"
  by (auto simp: isDigit_def)

lemma digit_not_spaceJS: "isDigit c \<Longrightarrow> \<not> isSpaceJS c"
  by (auto simp: isDigit_def isSpaceJS_def)

lemma digit_not_sign: "isDigit c \<Longrightarrow> c \<noteq> CHR ''-'' \<and> c \<noteq> CHR ''+''"
  by (auto simp: isDigit_def)

lemma takeWhile_digits_before_space:
  "takeWhile isDigit (takeWhile (\<lambda>c. c \<noteq> CHR '' '') s) = takeWhile isDigit s"
  by (induction s) (auto dest: digit_not_space)

lemma parseInt10_digit_start:
  assumes "s = c # r" and "isDigit c"
  shows "parseInt10 s = Some (digitsValue (takeWhile isDigit s))"
proof -
  have a: "dropWhile isSpaceJS s = s"
    using assms by (simp add: digit_not_spaceJS)
  have b: "hd s \<noteq> CHR ''-''" "hd s \<noteq> CHR ''+''"
    using assms digit_not_sign[of c] by simp_all
  have c: "takeWhile isDigit s \<noteq> []"
    using assms by simp
  show ?thesis
    unfolding parseInt10_def Let_def a using b c by simp
qed

lemma header_shape:
  assumes "is_header line"
  shows "\<exists>d1 rest c0 r. line = take 40 line @ CHR '' '' # d1 @ CHR '' '' # rest
           \<and> length (take 40 line) = 40 \<and> (\<forall>c \<in> set (take 40 line). isHexLower c)
           \<and> (\<forall>c \<in> set d1. isDigit c)
           \<and> rest = drop 1 (dropWhile isDigit (drop 41 line)) \<and> rest = c0 # r \<and> isDigit c0"
proof -
  define r1 where "r1 = drop 41 line"
  define r2 where "r2 = dropWhile isDigit r1"
  define rest where "rest = drop 1 r2"
  from assms have len: "length (take 40 line) = 40"
    and hex: "list_all isHexLower (take 40 line)"
    and sp1: "take 1 (drop 40 line) = '' ''"
    and sp2: "take 1 r2 = '' ''"
    and dg: "list_ex isDigit (take 1 rest)"
    unfolding is_header_def Let_def r1_def r2_def rest_def by simp_all
  have "drop 40 line = CHR '' '' # drop 41 line"
  proof (cases "drop 40 line")
    case Nil
    with sp1 show ?thesis by simp
  next
    case (Cons a as)
    have "as = drop 1 (drop 40 line)" using Cons by simp
    then have "as = drop 41 line" by simp
    with Cons sp1 show ?thesis by simp
  qed
  then have l1: "line = take 40 line @ CHR '' '' # r1"
    unfolding r1_def by (metis append_take_drop_id)
  have "r2 = CHR '' '' # rest"
    using sp2 unfolding rest_def by (cases r2) simp_all
  then have l2: "r1 = takeWhile isDigit r1 @ CHR '' '' # rest"
    unfolding r2_def by (metis takeWhile_dropWhile_id)
  obtain c0 r where c0: "rest = c0 # r" "isDigit c0"
    using dg by (cases rest) simp_all
  have d1: "\<forall>c \<in> set (takeWhile isDigit r1). isDigit c"
    by (auto dest: set_takeWhileD)
  have hx: "\<forall>c \<in> set (take 40 line). isHexLower c"
    using hex by (simp add: list_all_iff)
  have "line = take 40 line @ CHR '' '' # takeWhile isDigit r1 @ CHR '' '' # rest"
    using l1 l2 by simp
  then show ?thesis
    using len hx d1 c0 unfolding rest_def r2_def r1_def by blast
qed

lemma header_fields:
  assumes "is_header line"
  shows "hd (split_by (\<lambda>c. c = CHR '' '') line) = take 40 line"
    and "(case part_at (split_by (\<lambda>c. c = CHR '' '') line) 2 of
            None \<Rightarrow> None | Some p \<Rightarrow> parseInt10 p) = Some (header_final_line line)"
proof -
  from header_shape[OF assms] obtain d1 rest c0 r where
    line: "line = take 40 line @ CHR '' '' # d1 @ CHR '' '' # rest"
    and hx: "\<forall>c \<in> set (take 40 line). isHexLower c"
    and d1: "\<forall>c \<in> set d1. isDigit c"
    and rest: "rest = drop 1 (dropWhile isDigit (drop 41 line))" "rest = c0 # r" "isDigit c0"
    by blast
  define h where "h = take 40 line"
  have nsp1: "\<forall>c \<in> set h. \<not> (c = CHR '' '')"
    using hx hex_not_space unfolding h_def by blast
  have nsp2: "\<forall>c \<in> set d1. \<not> (c = CHR '' '')"
    using d1 digit_not_space by blast
  have "split_by (\<lambda>c. c = CHR '' '') (h @ CHR '' '' # d1 @ CHR '' '' # rest)
      = h # split_by (\<lambda>c. c = CHR '' '') (d1 @ CHR '' '' # rest)"
    by (rule split_by_prefix[OF nsp1]) simp
  also have "split_by (\<lambda>c. c = CHR '' '') (d1 @ CHR '' '' # rest)
      = d1 # split_by (\<lambda>c. c = CHR '' '') rest"
    by (rule split_by_prefix[OF nsp2]) simp
  finally have sp: "split_by (\<lambda>c. c = CHR '' '') line
      = h # d1 # split_by (\<lambda>c. c = CHR '' '') rest"
    using line unfolding h_def by simp
  obtain w ws where w: "split_by (\<lambda>c. c = CHR '' '') rest = w # ws"
    using split_by_nonempty[of "\<lambda>c. c = CHR '' ''" rest]
    by (cases "split_by (\<lambda>c. c = CHR '' '') rest") auto
  have "w = hd (split_by (\<lambda>c. c = CHR '' '') rest)"
    using w by simp
  then have w': "w = takeWhile (\<lambda>c. c \<noteq> CHR '' '') rest"
    by (simp add: hd_split_by)
  have wc: "w = c0 # takeWhile (\<lambda>c. c \<noteq> CHR '' '') r"
    unfolding w' using rest(2,3) digit_not_space[of c0] by simp
  have "parseInt10 w = Some (digitsValue (takeWhile isDigit w))"
    by (rule parseInt10_digit_start[OF wc rest(3)])
  also have "takeWhile isDigit w = takeWhile isDigit rest"
    unfolding w' by (rule takeWhile_digits_before_space)
  finally have p: "parseInt10 w = Some (header_final_line line)"
    unfolding header_final_line_def rest(1) .
  show "hd (split_by (\<lambda>c. c = CHR '' '') line) = take 40 line"
    using sp by (simp add: h_def)
  show "(case part_at (split_by (\<lambda>c. c = CHR '' '') line) 2 of
            None \<Rightarrow> None | Some p \<Rightarrow> parseInt10 p) = Some (header_final_line line)"
    using sp w p by (simp add: part_at_def)
qed

lemma header_lineNumber:
  assumes "is_header line"
  shows "blameInfo (header_step clock st line) = blameInfo st @
     [\<lparr>lineNumber = header_final_line line, commitHash = take 40 line,
       author = author (last (blameInfo (header_step clock st line))),
       date = date (last (blameInfo (header_step clock st line))),
       summary = summary (last (blameInfo (header_step clock st line)))\<rparr>]"
  unfolding header_step_def Let_def
  by (simp add: header_fields[OF assms])

lemma header_step_keys:
  assumes "is_header line"
  shows "map record_key (blameInfo (header_step clock st line))
     = map record_key (blameInfo st) @ [header_key line]"
proof -
  note e = header_lineNumber[OF assms, of clock st]
  have "map record_key (blameInfo (header_step clock st line))
      = map record_key (blameInfo st @
          [\<lparr>lineNumber = header_final_line line, commitHash = take 40 line,
            author = author (last (blameInfo (header_step clock st line))),
            date = date (last (blameInfo (header_step clock st line))),
            summary = summary (last (blameInfo (header_step clock st line)))\<rparr>])"
    using e by (rule arg_cong)
  then show ?thesis
    by (simp add: record_key_def header_key_def)
qed

lemma with_current_total:
  assumes "\<And>ci. \<exists>ci'. f ci = Inr ci'"
  shows "\<exists>st'. with_current st f = Inr st' \<and> blameInfo st' = blameInfo st"
proof (cases "currentCommitHash st \<noteq> []")
  case False
  then show ?thesis by (simp add: with_current_def)
next
  case True
  show ?thesis
  proof (cases "map_of (commitCache st) (currentCommitHash st)")
    case None
    with True show ?thesis by (simp add: with_current_def)
  next
    case (Some ci)
    from assms obtain ci' where "f ci = Inr ci'" by blast
    with True Some show ?thesis by (simp add: with_current_def)
  qed
qed

lemma blame_step_total:
  assumes "timestamp_line_ok toISO l"
  shows "\<exists>st'. blame_step clock toISO st l = Inr st'
           \<and> map record_key (blameInfo st')
               = map record_key (blameInfo st) @ map header_key (filter is_header [l])"
proof (cases "is_header l")
  case True
  then show ?thesis
    by (simp add: blame_step_def header_step_keys)
next
  case nh: False
  show ?thesis
  proof (cases "startsWith l ''author ''")
    case True
    from with_current_total[of "\<lambda>ci. Inr (ci\<lparr>p_author := Some (drop 7 l)\<rparr>)" st]
    obtain st' where "with_current st (\<lambda>ci. Inr (ci\<lparr>p_author := Some (drop 7 l)\<rparr>)) = Inr st'"
      "blameInfo st' = blameInfo st" by blast
    with nh True show ?thesis by (simp add: blame_step_def)
  next
    case na: False
    show ?thesis
    proof (cases "startsWith l ''author-time ''")
      case True
      with assms obtain t d where t: "parseInt10 (drop 12 l) = Some t"
        and d: "toISO (t * 1000) = Some d"
        by (auto simp: timestamp_line_ok_def split: option.splits)
      define f where "f = (\<lambda>ci :: PartialBlameLineInfo.
          case (case parseInt10 (drop 12 l) of None \<Rightarrow> None | Some t \<Rightarrow> toISO (t * 1000)) of
            None \<Rightarrow> Inl RangeError
          | Some d \<Rightarrow> Inr (ci\<lparr>p_date := Some d\<rparr>))"
      have "\<exists>ci'. f ci = Inr ci'" for ci
        by (simp add: f_def t d)
      from with_current_total[of f st, OF this]
      obtain st' where "with_current st f = Inr st'" "blameInfo st' = blameInfo st" by blast
      with nh na True show ?thesis by (simp add: blame_step_def f_def)
    next
      case nt: False
      show ?thesis
      proof (cases "startsWith l ''summary ''")
        case True
        from with_current_total[of "\<lambda>ci. Inr (ci\<lparr>p_summary := Some (drop 8 l)\<rparr>)" st]
        obtain st' where "with_current st (\<lambda>ci. Inr (ci\<lparr>p_summary := Some (drop 8 l)\<rparr>)) = Inr st'"
          "blameInfo st' = blameInfo st" by blast
        with nh na nt True show ?thesis by (simp add: blame_step_def)
      next
        case False
        with nh na nt show ?thesis by (simp add: blame_step_def)
      qed
    qed
  qed
qed

lemma blame_loop_total:
  assumes "list_all (timestamp_line_ok toISO) ls"
  shows "\<exists>st'. blame_loop clock toISO st ls = Inr st'
           \<and> map record_key (blameInfo st')
               = map record_key (blameInfo st) @ map header_key (filter is_header ls)"
  using assms
proof (induction ls arbitrary: st)
  case Nil
  show ?case by simp
next
  case (Cons l ls)
  then have ok: "timestamp_line_ok toISO l" and rest: "list_all (timestamp_line_ok toISO) ls"
    by simp_all
  from blame_step_total[OF ok, of clock st] obtain st1 where
    s1: "blame_step clock toISO st l = Inr st1"
    and k1: "map record_key (blameInfo st1)
        = map record_key (blameInfo st) @ map header_key (filter is_header [l])"
    by blast
  from Cons.IH[OF rest, of st1] obtain st' where
    s2: "blame_loop clock toISO st1 ls = Inr st'"
    and k2: "map record_key (blameInfo st')
        = map record_key (blameInfo st1) @ map header_key (filter is_header ls)"
    by blast
  have "blame_loop clock toISO st (l # ls) = Inr st'"
    using s1 s2 by simp
  moreover have "map record_key (blameInfo st')
      = map record_key (blameInfo st) @ map header_key (filter is_header (l # ls))"
    unfolding k2 k1 by simp
  ultimately show ?case by blast
qed

lemma consistent_lineNumber_cmp:
  "consistent_cmp (\<lambda>a b. lineNumber a - lineNumber (b :: BlameLineInfo))"
  unfolding consistent_cmp_def by auto

lemma sorted_with_mset_upt:
  assumes s: "sorted (xs :: int list)" and m: "mset xs = mset (map int [1 ..< Suc n])"
  shows "xs = map int [1 ..< Suc n]"
proof -
  have "sorted (map int [1 ..< Suc n])"
    unfolding sorted_map by (simp del: upt_Suc)
  from properties_for_sort[OF m s] properties_for_sort[OF refl this]
  show ?thesis by simp
qed

text \<open>
  The placeholders are not particular to the example: the record of the first header
  line of any commit is pushed with them, whatever metadata follows.
\<close>
lemma first_header_placeholders:
  assumes "is_header line" and "map_of (commitCache st) (take 40 line) = None"
  shows "blameInfo (header_step clock st line) = blameInfo st @
     [\<lparr>lineNumber = header_final_line line, commitHash = take 40 line, author = ''Unknown'',
       date = clock (length (blameInfo st)), summary = []\<rparr>]"
  using assms(2) unfolding header_step_def Let_def
  by (simp add: header_fields[OF assms(1)] or_else_def)

section \<open>Expansion to the current file\<close>

lemma tree_items_Nil: "tree_items [] = {}"
  by (simp add: tree_items_def)

lemma tree_items_Cons: "tree_items ((k, items) # t) = set items \<union> tree_items t"
  by (simp add: tree_items_def)

lemma tree_items_push:
  "tree_items (AList.update k (children tree k @ [x]) tree) = insert x (tree_items tree)"
proof (induction tree)
  case Nil
  show ?case by (simp add: children_def tree_items_def)
next
  case (Cons a tree)
  obtain k0 v0 where a: "a = (k0, v0)" by (cases a)
  show ?case
  proof (cases "k0 = k")
    case True
    then show ?thesis
      by (simp add: a children_def tree_items_Cons)
  next
    case False
    then have c: "children (a # tree) k = children tree k"
      by (simp add: a children_def)
    have "tree_items (AList.update k (children (a # tree) k @ [x]) (a # tree))
        = set v0 \<union> tree_items (AList.update k (children tree k @ [x]) tree)"
      unfolding c using False by (simp add: a tree_items_Cons)
    also have "\<dots> = insert x (tree_items (a # tree))"
      unfolding Cons.IH by (auto simp: a tree_items_Cons)
    finally show ?thesis .
  qed
qed

lemma folder_step_cases:
  "folder_step ae (cur, tree, fm) n =
     (if map_of fm (childPath cur n) = None
      then (childPath cur n,
            AList.update cur (children tree cur @
              [FolderItem n (childPath cur n) (if ae then Expanded else Collapsed)]) tree,
            AList.update (childPath cur n)
              (FolderItem n (childPath cur n) (if ae then Expanded else Collapsed)) fm)
      else (childPath cur n, tree, fm))"
  by (simp add: folder_step_def Let_def)

lemma folder_step_inv:
  assumes inv: "build_inv ae tree fm"
    and step: "folder_step ae (cur, tree, fm) n = (cur', tree', fm')"
  shows "build_inv ae tree' fm'" and "cur' = childPath cur n"
    and "tree_items tree \<subseteq> tree_items tree'"
    and "file_paths tree' = file_paths tree"
    and "\<exists>i \<in> tree_items tree'. folderPathOf i = Some (childPath cur n)"
proof -
  define folder where
    "folder = FolderItem n (childPath cur n) (if ae then Expanded else Collapsed)"
  have fprops: "isFolder folder" "isExpanded folder = ae"
    "folderPathOf folder = Some (childPath cur n)" "filePathOf folder = None"
    by (simp_all add: folder_def)
  from inv have i1: "\<forall>i \<in> tree_items tree. isFolder i \<longrightarrow> isExpanded i = ae"
    and i2: "\<forall>p. map_of fm p \<noteq> None \<longrightarrow> (\<exists>i \<in> tree_items tree. folderPathOf i = Some p)"
    unfolding build_inv_def by simp_all
  show "cur' = childPath cur n"
    using step by (auto simp: folder_step_cases split: if_splits)
  have all: "build_inv ae tree' fm' \<and> tree_items tree \<subseteq> tree_items tree'
        \<and> file_paths tree' = file_paths tree
        \<and> (\<exists>i \<in> tree_items tree'. folderPathOf i = Some (childPath cur n))"
  proof (cases "map_of fm (childPath cur n) = None")
    case True
    with step have t: "tree' = AList.update cur (children tree cur @ [folder]) tree"
      and f: "fm' = AList.update (childPath cur n) folder fm"
      by (auto simp: folder_step_cases folder_def)
    have items: "tree_items tree' = insert folder (tree_items tree)"
      unfolding t by (rule tree_items_push)
    have m: "map_of fm' p \<noteq> None \<longrightarrow> (\<exists>i \<in> tree_items tree'. folderPathOf i = Some p)" for p
    proof (cases "p = childPath cur n")
      case True
      then show ?thesis using items fprops by auto
    next
      case False
      then have "map_of fm' p = map_of fm p"
        unfolding f by (simp add: update_conv')
      then show ?thesis using i2 items by auto
    qed
    have "build_inv ae tree' fm'"
      unfolding build_inv_def using i1 m items fprops by auto
    moreover have "file_paths tree' = file_paths tree"
      unfolding file_paths_def items using fprops by auto
    moreover have "\<exists>i \<in> tree_items tree'. folderPathOf i = Some (childPath cur n)"
      using items fprops by auto
    ultimately show "build_inv ae tree' fm' \<and> tree_items tree \<subseteq> tree_items tree'
        \<and> file_paths tree' = file_paths tree
        \<and> (\<exists>i \<in> tree_items tree'. folderPathOf i = Some (childPath cur n))"
      using items by auto
  next
    case False
    with step have t: "tree' = tree" and f: "fm' = fm"
      by (auto simp: folder_step_cases)
    from False i2 have "\<exists>i \<in> tree_items tree. folderPathOf i = Some (childPath cur n)"
      by blast
    then show "build_inv ae tree' fm' \<and> tree_items tree \<subseteq> tree_items tree'
        \<and> file_paths tree' = file_paths tree
        \<and> (\<exists>i \<in> tree_items tree'. folderPathOf i = Some (childPath cur n))"
      using inv by (simp add: t f)
  qed
  show "build_inv ae tree' fm'" "tree_items tree \<subseteq> tree_items tree'"
    "file_paths tree' = file_paths tree"
    "\<exists>i \<in> tree_items tree'. folderPathOf i = Some (childPath cur n)"
    using all by simp_all
qed

lemma folder_steps_inv:
  assumes "build_inv ae tree fm"
    and "foldl (folder_step ae) (cur, tree, fm) ns = (cur', tree', fm')"
  shows "build_inv ae tree' fm' \<and> tree_items tree \<subseteq> tree_items tree'
       \<and> file_paths tree' = file_paths tree
       \<and> (\<forall>p \<in> set (ancestorPathsFrom cur ns). \<exists>i \<in> tree_items tree'. folderPathOf i = Some p)"
  using assms
proof (induction ns arbitrary: cur tree fm)
  case Nil
  then show ?case by simp
next
  case (Cons n ns)
  obtain c1 t1 f1 where s1: "folder_step ae (cur, tree, fm) n = (c1, t1, f1)"
    by (cases "folder_step ae (cur, tree, fm) n") auto
  note st = folder_step_inv[OF Cons.prems(1) s1]
  have run: "foldl (folder_step ae) (c1, t1, f1) ns = (cur', tree', fm')"
    using Cons.prems(2) s1 by simp
  note ih = Cons.IH[OF st(1) run]
  have sub: "tree_items t1 \<subseteq> tree_items tree'"
    using ih by simp
  have here: "\<exists>i \<in> tree_items tree'. folderPathOf i = Some (childPath cur n)"
    using st(5) sub by blast
  have rest: "\<forall>p \<in> set (ancestorPathsFrom (childPath cur n) ns).
      \<exists>i \<in> tree_items tree'. folderPathOf i = Some p"
    using ih st(2) by simp
  show ?case
    using ih st(3) st(4) here rest by auto
qed

lemma file_step_inv:
  assumes inv: "build_inv ae tree fm"
    and step: "file_step P ae cfp h (tree, fm) f = (tree', fm')"
  shows "build_inv ae tree' fm' \<and> tree_items tree \<subseteq> tree_items tree'
       \<and> file_paths tree' = insert (path f) (file_paths tree)
       \<and> (\<forall>p \<in> set (ancestorPaths (path f)). \<exists>i \<in> tree_items tree'. folderPathOf i = Some p)"
proof -
  define parts where "parts = split_by isPathSeparator (path f)"
  define item where "item = FileItem (last parts) h (path f) (isCurrentFile P cfp (path f)) (status f)"
  obtain c1 t1 f1 where
    run: "foldl (folder_step ae) ([], tree, fm) (butlast parts) = (c1, t1, f1)"
    by (cases "foldl (folder_step ae) ([], tree, fm) (butlast parts)") auto
  note fs = folder_steps_inv[OF inv run]
  from step run have t: "tree' = AList.update c1 (children t1 c1 @ [item]) t1" and f: "fm' = f1"
    by (auto simp: file_step_def Let_def parts_def item_def)
  have items: "tree_items tree' = insert item (tree_items t1)"
    unfolding t by (rule tree_items_push)
  have fprops: "\<not> isFolder item" "folderPathOf item = None" "filePathOf item = Some (path f)"
    by (simp_all add: item_def)
  from fs have i1: "\<forall>i \<in> tree_items t1. isFolder i \<longrightarrow> isExpanded i = ae"
    and i2: "\<forall>p. map_of f1 p \<noteq> None \<longrightarrow> (\<exists>i \<in> tree_items t1. folderPathOf i = Some p)"
    unfolding build_inv_def by simp_all
  have a: "build_inv ae tree' fm'"
    unfolding build_inv_def f items using i1 i2 fprops by auto
  have b: "tree_items tree \<subseteq> tree_items tree'"
    using fs items by auto
  have c: "file_paths tree' = insert (path f) (file_paths tree)"
  proof -
    have "file_paths tree' = insert (path f) (file_paths t1)"
      unfolding file_paths_def items using fprops by auto
    then show ?thesis using fs by simp
  qed
  have d: "\<forall>p \<in> set (ancestorPaths (path f)). \<exists>i \<in> tree_items tree'. folderPathOf i = Some p"
    using fs items unfolding ancestorPaths_def parts_def by auto
  show ?thesis
    using a b c d by simp
qed

lemma files_fold_inv:
  assumes "build_inv ae tree fm"
    and "foldl (file_step P ae cfp h) (tree, fm) fs = (tree', fm')"
  shows "build_inv ae tree' fm' \<and> tree_items tree \<subseteq> tree_items tree'
       \<and> file_paths tree' = file_paths tree \<union> path ` set fs
       \<and> (\<forall>f \<in> set fs. \<forall>p \<in> set (ancestorPaths (path f)).
             \<exists>i \<in> tree_items tree'. folderPathOf i = Some p)"
  using assms
proof (induction fs arbitrary: tree fm)
  case Nil
  then show ?case by simp
next
  case (Cons f fs)
  obtain t1 f1 where s1: "file_step P ae cfp h (tree, fm) f = (t1, f1)"
    by (cases "file_step P ae cfp h (tree, fm) f") auto
  note st = file_step_inv[OF Cons.prems(1) s1]
  have run: "foldl (file_step P ae cfp h) (t1, f1) fs = (tree', fm')"
    using Cons.prems(2) s1 by simp
  have inv1: "build_inv ae t1 f1"
    using st by simp
  note ih = Cons.IH[OF inv1 run]
  have sub: "tree_items t1 \<subseteq> tree_items tree'"
    using ih by simp
  have anc: "\<forall>p \<in> set (ancestorPaths (path f)). \<exists>i \<in> tree_items tree'. folderPathOf i = Some p"
    using st sub by blast
  have fp: "file_paths tree' = file_paths tree \<union> path ` set (f # fs)"
    using ih st by auto
  show ?case
    using ih st anc fp by auto
qed

lemma tree_items_sorted:
  "tree_items (map (\<lambda>(folderPath, items). (folderPath, js_sort cmp items)) tree) = tree_items tree"
  by (induction tree) (auto simp: tree_items_def set_js_sort)

lemma build_summary:
  "(\<forall>i \<in> tree_items (fst (buildFileTree P lc ae cfp files h)). isFolder i \<longrightarrow> isExpanded i = ae)
   \<and> file_paths (fst (buildFileTree P lc ae cfp files h)) = path ` set files
   \<and> (\<forall>f \<in> set files. \<forall>p \<in> set (ancestorPaths (path f)).
         \<exists>i \<in> tree_items (fst (buildFileTree P lc ae cfp files h)). folderPathOf i = Some p)"
proof -
  define files' where "files' = js_sort (\<lambda>a b. lc (path a) (path b)) files"
  obtain t1 f1 where run: "foldl (file_step P ae cfp h) ([], []) files' = (t1, f1)"
    by (cases "foldl (file_step P ae cfp h) ([], []) files'") auto
  have inv0: "build_inv ae [] []"
    by (simp add: build_inv_def tree_items_def)
  note r = files_fold_inv[OF inv0 run]
  have items: "tree_items (fst (buildFileTree P lc ae cfp files h)) = tree_items t1"
    using run by (simp add: buildFileTree_def Let_def files'_def tree_items_sorted)
  have s: "set files' = set files"
    by (simp add: files'_def set_js_sort)
  have fp0: "file_paths [] = {}"
    by (simp add: file_paths_def tree_items_def)
  have a: "\<forall>i \<in> tree_items t1. isFolder i \<longrightarrow> isExpanded i = ae"
    using r unfolding build_inv_def by simp
  have b: "file_paths t1 = path ` set files"
    using r fp0 s by simp
  have c: "\<forall>f \<in> set files. \<forall>p \<in> set (ancestorPaths (path f)).
      \<exists>i \<in> tree_items t1. folderPathOf i = Some p"
    using r s by simp
  have fp: "file_paths (fst (buildFileTree P lc ae cfp files h)) = file_paths t1"
    unfolding file_paths_def items ..
  show ?thesis
    unfolding items fp using a b c by simp
qed

lemma expand_in_map_tree: "expand_in n p tree = map_tree (expandItem n p) tree"
proof -
  have "expandItem n p = (\<lambda>item. if folderPathOf item = Some p then FolderItem n p Expanded else item)"
    by (rule ext) (simp add: expandItem_def)
  then show ?thesis
    by (simp add: expand_in_def map_tree_def)
qed

lemma map_tree_comp: "map_tree f (map_tree g tree) = map_tree (\<lambda>i. f (g i)) tree"
  by (induction tree) (auto simp: map_tree_def)

lemma map_tree_id: "map_tree (\<lambda>i. i) tree = tree"
  by (induction tree) (auto simp: map_tree_def)

lemma tree_items_map_tree: "tree_items (map_tree f tree) = f ` tree_items tree"
  by (induction tree) (auto simp: map_tree_def tree_items_def)

lemma expand_steps_map_tree:
  "snd (foldl expand_step (cur, tree) ns) = map_tree (expandItems cur ns) tree"
proof (induction ns arbitrary: cur tree)
  case Nil
  show ?case by (simp add: map_tree_id)
next
  case (Cons n ns)
  have "snd (foldl expand_step (cur, tree) (n # ns))
      = snd (foldl expand_step (childPath cur n, map_tree (expandItem n (childPath cur n)) tree) ns)"
    by (simp add: expand_step_def Let_def expand_in_map_tree)
  also have "\<dots> = map_tree (expandItems (childPath cur n) ns)
      (map_tree (expandItem n (childPath cur n)) tree)"
    by (rule Cons.IH)
  also have "\<dots> = map_tree (expandItems cur (n # ns)) tree"
  proof -
    have "expandItems cur (n # ns)
        = (\<lambda>i. expandItems (childPath cur n) ns (expandItem n (childPath cur n) i))"
      by (rule ext) simp
    then show ?thesis
      by (simp add: map_tree_comp)
  qed
  finally show ?case .
qed

lemma expandItem_props:
  "folderPathOf (expandItem n p i) = folderPathOf i"
  "filePathOf (expandItem n p i) = filePathOf i"
  "isFolder (expandItem n p i) = isFolder i"
  "isExpanded (expandItem n p i) = (isExpanded i \<or> folderPathOf i = Some p)"
  by (cases i; simp add: expandItem_def)+

lemma expandItems_props:
  "folderPathOf (expandItems cur ns i) = folderPathOf i
   \<and> filePathOf (expandItems cur ns i) = filePathOf i
   \<and> isFolder (expandItems cur ns i) = isFolder i
   \<and> isExpanded (expandItems cur ns i)
       = (isExpanded i \<or> folderPathOf i \<in> Some ` set (ancestorPathsFrom cur ns))"
proof (induction ns arbitrary: cur i)
  case Nil
  show ?case by simp
next
  case (Cons n ns)
  show ?case
    using Cons.IH[of "childPath cur n" "expandItem n (childPath cur n) i"]
    by (auto simp: expandItem_props)
qed

lemma list_ex_file_paths:
  "list_ex (\<lambda>(folderPath, items). list_ex (\<lambda>item. filePathOf item = Some p) items) tree
     = (p \<in> file_paths tree)"
  by (auto simp: list_ex_iff file_paths_def tree_items_def)

lemma expand_unmatched:
  assumes "c \<noteq> []" and "targetRelativePath P svc c \<notin> file_paths tree"
  shows "expandFoldersToCurrentFile P svc (Some c) tree = tree"
  using assms by (simp add: expandFoldersToCurrentFile_def Let_def list_ex_file_paths)

lemma expand_matched:
  assumes "c \<noteq> []" and "targetRelativePath P svc c \<in> file_paths tree"
  shows "expandFoldersToCurrentFile P svc (Some c) tree
     = map_tree (expandItems []
         (butlast (split_by isPathSeparator (targetRelativePath P svc c)))) tree"
  using assms
  by (simp add: expandFoldersToCurrentFile_def Let_def list_ex_file_paths expand_steps_map_tree)

text \<open>
  C3, as stated, fails on the fallback. The current file \<open>/repo/pkg/src/b.ts\<close> resolves to
  \<open>pkg/src/b.ts\<close>; no changed file has this path, and the rule of the specification
  falls back to \<open>src/b.ts\<close>, matched by suffix, whose ancestor chain is the folder \<open>src\<close>.
  The code looks for the exact path only: the tree comes back with \<open>src\<close> collapsed (while
  buildFileTree, which does match by suffix, has flagged \<open>src/b.ts\<close> as current).
\<close>
theorem C3_no_fallback_counterexample:
  "targetRelativePath posix example_service ''/repo/pkg/src/b.ts'' = ''pkg/src/b.ts''
   \<and> spec_locateTarget posix example_files ''pkg/src/b.ts''
       = Some \<lparr>path = ''src/b.ts'', status = added\<rparr>
   \<and> ancestorPaths ''src/b.ts'' = [''src'']
   \<and> expandFoldersToCurrentFile posix example_service (Some ''/repo/pkg/src/b.ts'')
        (fst (buildFileTree posix codeUnitCompare False (Some ''/repo/pkg/src/b.ts'')
               example_files ''abc123''))
       = [([], [FolderItem ''src'' ''src'' Collapsed,
                FileItem ''old.ts'' ''abc123'' ''old.ts'' False deleted]),
          (''src'', [FileItem ''a.ts'' ''abc123'' ''src/a.ts'' False modified,
                     FileItem ''b.ts'' ''abc123'' ''src/b.ts'' True added])]"
  by code_simp

text \<open>
  C3, amended. Building in auto mode (all folders collapsed) and then expanding to a
  current file locates the File node by exact path only: the path of the current file
  relative to its repository. When a changed file has exactly this path, a Folder node
  of the resulting tree is expanded if and only if its path is on the ancestor chain of
  that file, each folder of the chain is present and expanded, and the files of the tree
  are those of the input. When no changed file has exactly this path, the tree is the
  built one and every folder stays collapsed.
\<close>
theorem C3_auto_expand_exact:
  assumes c: "c \<noteq> []"
  shows "((\<exists>f \<in> set files. path f = targetRelativePath P svc c) \<longrightarrow>
            (\<forall>i \<in> tree_items (expandFoldersToCurrentFile P svc (Some c)
                     (fst (buildFileTree P lc False (Some c) files h))).
               isFolder i \<longrightarrow>
               isExpanded i = (folderPathOf i \<in> Some ` set (ancestorPaths (targetRelativePath P svc c))))
            \<and> (\<forall>p \<in> set (ancestorPaths (targetRelativePath P svc c)).
                 \<exists>i \<in> tree_items (expandFoldersToCurrentFile P svc (Some c)
                          (fst (buildFileTree P lc False (Some c) files h))).
                   folderPathOf i = Some p \<and> isExpanded i)
            \<and> file_paths (expandFoldersToCurrentFile P svc (Some c)
                  (fst (buildFileTree P lc False (Some c) files h))) = path ` set files)
       \<and> (\<not> (\<exists>f \<in> set files. path f = targetRelativePath P svc c) \<longrightarrow>
            expandFoldersToCurrentFile P svc (Some c)
                (fst (buildFileTree P lc False (Some c) files h))
              = fst (buildFileTree P lc False (Some c) files h)
            \<and> (\<forall>i \<in> tree_items (expandFoldersToCurrentFile P svc (Some c)
                     (fst (buildFileTree P lc False (Some c) files h))). \<not> isExpanded i))"
proof -
  define T0 where "T0 = fst (buildFileTree P lc False (Some c) files h)"
  define rel where "rel = targetRelativePath P svc c"
  define T where "T = expandFoldersToCurrentFile P svc (Some c) T0"
  define G where "G = expandItems [] (butlast (split_by isPathSeparator rel))"
  note sum = build_summary[of P lc False "Some c" files h, folded T0_def]
  from sum have col: "\<forall>i \<in> tree_items T0. isFolder i \<longrightarrow> \<not> isExpanded i"
    and fps: "file_paths T0 = path ` set files"
    and anc: "\<forall>f \<in> set files. \<forall>p \<in> set (ancestorPaths (path f)).
        \<exists>i \<in> tree_items T0. folderPathOf i = Some p"
    by simp_all
  have nofile: "\<not> isExpanded i" if "i \<in> tree_items T0" for i
    using col that by (cases i) auto
  have Gp: "folderPathOf (G i) = folderPathOf i" "filePathOf (G i) = filePathOf i"
    "isFolder (G i) = isFolder i"
    "isExpanded (G i) = (isExpanded i \<or> folderPathOf i \<in> Some ` set (ancestorPaths rel))" for i
    using expandItems_props[of "[]" "butlast (split_by isPathSeparator rel)" i]
    by (simp_all add: G_def ancestorPaths_def)
  have matched: "(\<forall>i \<in> tree_items T. isFolder i \<longrightarrow>
          isExpanded i = (folderPathOf i \<in> Some ` set (ancestorPaths rel)))
      \<and> (\<forall>p \<in> set (ancestorPaths rel). \<exists>i \<in> tree_items T. folderPathOf i = Some p \<and> isExpanded i)
      \<and> file_paths T = path ` set files"
    if m: "\<exists>f \<in> set files. path f = rel"
  proof -
    from m fps have "rel \<in> file_paths T0" by auto
    then have T: "T = map_tree G T0"
      unfolding T_def G_def rel_def using c by (simp add: expand_matched)
    have items: "tree_items T = G ` tree_items T0"
      unfolding T by (rule tree_items_map_tree)
    have a: "isExpanded i = (folderPathOf i \<in> Some ` set (ancestorPaths rel))"
      if "i \<in> tree_items T" for i
    proof -
      from that items obtain j where j: "j \<in> tree_items T0" "i = G j" by auto
      show ?thesis
        unfolding j(2) Gp using nofile[OF j(1)] by simp
    qed
    have b: "\<exists>i \<in> tree_items T. folderPathOf i = Some p \<and> isExpanded i"
      if "p \<in> set (ancestorPaths rel)" for p
    proof -
      from m obtain f where f: "f \<in> set files" "path f = rel" by blast
      with anc that obtain j where j: "j \<in> tree_items T0" "folderPathOf j = Some p" by blast
      have "G j \<in> tree_items T" using j(1) items by simp
      moreover have "folderPathOf (G j) = Some p \<and> isExpanded (G j)"
        unfolding Gp using j(2) that by simp
      ultimately show ?thesis by blast
    qed
    have "file_paths T = file_paths T0"
      unfolding file_paths_def items using Gp(2) by auto
    with a b fps show ?thesis by simp
  qed
  have unmatched: "T = T0 \<and> (\<forall>i \<in> tree_items T. \<not> isExpanded i)"
    if m: "\<not> (\<exists>f \<in> set files. path f = rel)"
  proof -
    from m fps have "rel \<notin> file_paths T0" by auto
    then have "T = T0"
      unfolding T_def rel_def using c by (simp add: expand_unmatched)
    with nofile show ?thesis by simp
  qed
  show ?thesis
    using matched unmatched unfolding T_def T0_def rel_def by blast
qed

text \<open>
  The amended C3 on the three files of the example, with \<open>/repo/src/b.ts\<close> the current
  file: the folder \<open>src\<close> is in the tree, expanded.
\<close>
theorem C3_auto_expand_exact_witness:
  "''/repo/src/b.ts'' \<noteq> []
   \<and> targetRelativePath posix example_service ''/repo/src/b.ts'' = ''src/b.ts''
   \<and> \<lparr>path = ''src/b.ts'', status = added\<rparr> \<in> set example_files
   \<and> ancestorPaths ''src/b.ts'' = [''src'']
   \<and> (\<exists>i \<in> tree_items (expandFoldersToCurrentFile posix example_service (Some ''/repo/src/b.ts'')
            (fst (buildFileTree posix codeUnitCompare False (Some ''/repo/src/b.ts'')
                   example_files ''abc123''))).
         folderPathOf i = Some ''src'' \<and> isExpanded i)
   \<and> expandFoldersToCurrentFile posix example_service (Some ''/repo/src/b.ts'')
        (fst (buildFileTree posix codeUnitCompare False (Some ''/repo/src/b.ts'')
               example_files ''abc123''))
       = [([], [FolderItem ''src'' ''src'' Expanded,
                FileItem ''old.ts'' ''abc123'' ''old.ts'' False deleted]),
          (''src'', [FileItem ''a.ts'' ''abc123'' ''src/a.ts'' False modified,
                     FileItem ''b.ts'' ''abc123'' ''src/b.ts'' True added])]"
proof -
  have n: "''/repo/src/b.ts'' \<noteq> []"
    by simp
  have rel: "targetRelativePath posix example_service ''/repo/src/b.ts'' = ''src/b.ts''"
    by code_simp
  have mem: "\<lparr>path = ''src/b.ts'', status = added\<rparr> \<in> set example_files"
    by (simp add: example_files_def)
  have ex: "\<exists>f \<in> set example_files. path f = targetRelativePath posix example_service ''/repo/src/b.ts''"
    unfolding rel using mem by (intro bexI[of _ "\<lparr>path = ''src/b.ts'', status = added\<rparr>"]) simp_all
  have anc: "ancestorPaths ''src/b.ts'' = [''src'']"
    by code_simp
  note t = C3_auto_expand_exact[OF n, of example_files posix example_service codeUnitCompare
      "''abc123''", THEN conjunct1, rule_format, OF ex, THEN conjunct2, THEN conjunct1,
      unfolded rel anc]
  from t have e: "\<exists>i \<in> tree_items (expandFoldersToCurrentFile posix example_service
            (Some ''/repo/src/b.ts'')
            (fst (buildFileTree posix codeUnitCompare False (Some ''/repo/src/b.ts'')
                   example_files ''abc123''))).
         folderPathOf i = Some ''src'' \<and> isExpanded i"
    by simp
  have v: "expandFoldersToCurrentFile posix example_service (Some ''/repo/src/b.ts'')
        (fst (buildFileTree posix codeUnitCompare False (Some ''/repo/src/b.ts'')
               example_files ''abc123''))
       = [([], [FolderItem ''src'' ''src'' Expanded,
                FileItem ''old.ts'' ''abc123'' ''old.ts'' False deleted]),
          (''src'', [FileItem ''a.ts'' ''abc123'' ''src/a.ts'' False modified,
                     FileItem ''b.ts'' ''abc123'' ''src/b.ts'' True added])]"
    by code_simp
  show ?thesis
    by (intro conjI n rel mem anc e v)
qed

section \<open>Order of the children after the expansion\<close>

lemma split_by_parts_clean: "w \<in> set (split_by p s) \<Longrightarrow> c \<in> set w \<Longrightarrow> \<not> p c"
proof (induction s arbitrary: w)
  case Nil
  then show ?case by simp
next
  case (Cons a s)
  obtain v vs where v: "split_by p s = v # vs"
    using split_by_nonempty[of p s] by (cases "split_by p s") auto
  show ?case
  proof (cases "p a")
    case True
    with Cons show ?thesis by auto
  next
    case False
    with Cons.prems v have "w = a # v \<or> w \<in> set vs" by auto
    then show ?thesis
    proof
      assume "w = a # v"
      with Cons.prems(2) have "c = a \<or> c \<in> set v" by auto
      then show ?thesis
        using False Cons.IH[of v] v by auto
    next
      assume "w \<in> set vs"
      then show ?thesis
        using Cons.IH[of w] Cons.prems(2) v by auto
    qed
  qed
qed

lemma takeWhile_until: "a \<notin> set us \<Longrightarrow> takeWhile (\<lambda>c. c \<noteq> a) (us @ a # vs) = us"
  by (induction us) auto

lemma last_segment_unique:
  assumes "xs @ a # ys = xs' @ a # ys'" and "a \<notin> set ys" and "a \<notin> set ys'"
  shows "ys = ys'"
proof -
  have "takeWhile (\<lambda>c. c \<noteq> a) (rev (xs @ a # ys)) = rev ys"
    using assms(2) takeWhile_until[of a "rev ys" "rev xs"] by simp
  moreover have "takeWhile (\<lambda>c. c \<noteq> a) (rev (xs' @ a # ys')) = rev ys'"
    using assms(3) takeWhile_until[of a "rev ys'" "rev xs'"] by simp
  ultimately have "rev ys = rev ys'"
    using assms(1) by simp
  then show ?thesis by simp
qed

lemma childPath_name_unique:
  assumes "childPath c n = childPath c' n'"
    and "CHR ''/'' \<notin> set n" and "CHR ''/'' \<notin> set n'"
  shows "n = n'"
proof (cases "c = []")
  case True
  show ?thesis
  proof (cases "c' = []")
    case True
    with \<open>c = []\<close> assms(1) show ?thesis by (simp add: childPath_def)
  next
    case False
    with True assms(1) have "n = c' @ ''/'' @ n'" by (simp add: childPath_def)
    with assms(2) show ?thesis by simp
  qed
next
  case False
  show ?thesis
  proof (cases "c' = []")
    case True
    with False assms(1) have "n' = c @ ''/'' @ n" by (simp add: childPath_def)
    with assms(3) show ?thesis by simp
  next
    case c': False
    with False assms(1) have "c @ CHR ''/'' # n = c' @ CHR ''/'' # n'"
      by (simp add: childPath_def)
    then show ?thesis
      using assms(2,3) by (rule last_segment_unique)
  qed
qed

lemma folder_step_named:
  assumes "\<forall>i \<in> tree_items tree. well_named i" and "CHR ''/'' \<notin> set n"
    and "folder_step ae (cur, tree, fm) n = (cur', tree', fm')"
  shows "\<forall>i \<in> tree_items tree'. well_named i"
proof (cases "map_of fm (childPath cur n) = None")
  case True
  with assms(3) have "tree' = AList.update cur (children tree cur @
      [FolderItem n (childPath cur n) (if ae then Expanded else Collapsed)]) tree"
    by (auto simp: folder_step_cases)
  then have "tree_items tree'
      = insert (FolderItem n (childPath cur n) (if ae then Expanded else Collapsed)) (tree_items tree)"
    by (simp add: tree_items_push)
  moreover have "well_named (FolderItem n (childPath cur n) (if ae then Expanded else Collapsed))"
    using assms(2) by auto
  ultimately show ?thesis
    using assms(1) by auto
next
  case False
  with assms(3) have "tree' = tree"
    by (auto simp: folder_step_cases)
  with assms(1) show ?thesis by simp
qed

lemma folder_steps_named:
  assumes "\<forall>i \<in> tree_items tree. well_named i" and "\<forall>n \<in> set ns. CHR ''/'' \<notin> set n"
    and "foldl (folder_step ae) (cur, tree, fm) ns = (cur', tree', fm')"
  shows "\<forall>i \<in> tree_items tree'. well_named i"
  using assms
proof (induction ns arbitrary: cur tree fm)
  case Nil
  then show ?case by simp
next
  case (Cons n ns)
  obtain c1 t1 f1 where s1: "folder_step ae (cur, tree, fm) n = (c1, t1, f1)"
    by (cases "folder_step ae (cur, tree, fm) n") auto
  have n: "CHR ''/'' \<notin> set n" and ns: "\<forall>n \<in> set ns. CHR ''/'' \<notin> set n"
    using Cons.prems(2) by simp_all
  have w1: "\<forall>i \<in> tree_items t1. well_named i"
    by (rule folder_step_named[OF Cons.prems(1) n s1])
  have run: "foldl (folder_step ae) (c1, t1, f1) ns = (cur', tree', fm')"
    using Cons.prems(3) s1 by simp
  show ?case
    by (rule Cons.IH[OF w1 ns run])
qed

lemma path_parts_clean: "n \<in> set (butlast (split_by isPathSeparator p)) \<Longrightarrow> CHR ''/'' \<notin> set n"
proof
  assume n: "n \<in> set (butlast (split_by isPathSeparator p))" and c: "CHR ''/'' \<in> set n"
  from n have "n \<in> set (split_by isPathSeparator p)"
    by (rule in_set_butlastD)
  from split_by_parts_clean[OF this c] show False
    by (simp add: isPathSeparator_def)
qed

lemma file_step_named:
  assumes "\<forall>i \<in> tree_items tree. well_named i"
    and "file_step P ae cfp h (tree, fm) f = (tree', fm')"
  shows "\<forall>i \<in> tree_items tree'. well_named i"
proof -
  define parts where "parts = split_by isPathSeparator (path f)"
  define item where "item = FileItem (last parts) h (path f) (isCurrentFile P cfp (path f)) (status f)"
  obtain c1 t1 f1 where
    run: "foldl (folder_step ae) ([], tree, fm) (butlast parts) = (c1, t1, f1)"
    by (cases "foldl (folder_step ae) ([], tree, fm) (butlast parts)") auto
  have clean: "\<forall>n \<in> set (butlast parts). CHR ''/'' \<notin> set n"
    unfolding parts_def using path_parts_clean by blast
  have w1: "\<forall>i \<in> tree_items t1. well_named i"
    by (rule folder_steps_named[OF assms(1) clean run])
  from assms(2) run have "tree' = AList.update c1 (children t1 c1 @ [item]) t1"
    by (auto simp: file_step_def Let_def parts_def item_def)
  then have "tree_items tree' = insert item (tree_items t1)"
    by (simp add: tree_items_push)
  moreover have "well_named item"
    by (simp add: item_def)
  ultimately show ?thesis
    using w1 by auto
qed

lemma files_fold_named:
  assumes "\<forall>i \<in> tree_items tree. well_named i"
    and "foldl (file_step P ae cfp h) (tree, fm) fs = (tree', fm')"
  shows "\<forall>i \<in> tree_items tree'. well_named i"
  using assms
proof (induction fs arbitrary: tree fm)
  case Nil
  then show ?case by simp
next
  case (Cons f fs)
  obtain t1 f1 where s1: "file_step P ae cfp h (tree, fm) f = (t1, f1)"
    by (cases "file_step P ae cfp h (tree, fm) f") auto
  have w1: "\<forall>i \<in> tree_items t1. well_named i"
    by (rule file_step_named[OF Cons.prems(1) s1])
  have run: "foldl (file_step P ae cfp h) (t1, f1) fs = (tree', fm')"
    using Cons.prems(2) s1 by simp
  show ?case
    by (rule Cons.IH[OF w1 run])
qed

lemma build_named: "\<forall>i \<in> tree_items (fst (buildFileTree P lc ae cfp files h)). well_named i"
proof -
  define files' where "files' = js_sort (\<lambda>a b. lc (path a) (path b)) files"
  obtain t1 f1 where run: "foldl (file_step P ae cfp h) ([], []) files' = (t1, f1)"
    by (cases "foldl (file_step P ae cfp h) ([], []) files'") auto
  have w0: "\<forall>i \<in> tree_items []. well_named i"
    by (simp add: tree_items_def)
  have "\<forall>i \<in> tree_items t1. well_named i"
    by (rule files_fold_named[OF w0 run])
  moreover have "tree_items (fst (buildFileTree P lc ae cfp files h)) = tree_items t1"
    using run by (simp add: buildFileTree_def Let_def files'_def tree_items_sorted)
  ultimately show ?thesis by simp
qed

lemma expandItem_label:
  assumes "well_named i" and "CHR ''/'' \<notin> set n"
  shows "label (expandItem n (childPath cur n) i) = label i"
    and "well_named (expandItem n (childPath cur n) i)"
proof -
  show "label (expandItem n (childPath cur n) i) = label i"
  proof (cases i)
    case (FolderItem n0 p0 st0)
    show ?thesis
    proof (cases "p0 = childPath cur n")
      case True
      from assms(1) FolderItem obtain c0 where "p0 = childPath c0 n0" "CHR ''/'' \<notin> set n0"
        by auto
      with True have "n0 = n"
        using childPath_name_unique[of c0 n0 cur n] assms(2) by simp
      with FolderItem True show ?thesis by (simp add: expandItem_def)
    next
      case False
      with FolderItem show ?thesis by (simp add: expandItem_def)
    qed
  next
    case (FileItem n0 h0 p0 cur0 fs0)
    then show ?thesis by (simp add: expandItem_def)
  qed
  show "well_named (expandItem n (childPath cur n) i)"
    using assms by (cases i) (auto simp: expandItem_def)
qed

lemma expandItems_label:
  assumes "well_named i" and "\<forall>n \<in> set ns. CHR ''/'' \<notin> set n"
  shows "label (expandItems cur ns i) = label i"
  using assms
proof (induction ns arbitrary: cur i)
  case Nil
  show ?case by simp
next
  case (Cons n ns)
  have n: "CHR ''/'' \<notin> set n" and ns: "\<forall>n \<in> set ns. CHR ''/'' \<notin> set n"
    using Cons.prems(2) by simp_all
  note e = expandItem_label[OF Cons.prems(1) n, of cur]
  have "label (expandItems cur (n # ns) i)
      = label (expandItems (childPath cur n) ns (expandItem n (childPath cur n) i))"
    by simp
  also have "\<dots> = label (expandItem n (childPath cur n) i)"
    by (rule Cons.IH[OF e(2) ns])
  also have "\<dots> = label i"
    by (rule e(1))
  finally show ?case .
qed

lemma folders_then_files_map:
  assumes o: "folders_then_files lc items"
    and l: "\<forall>i \<in> set items. label (g i) = label i \<and> isFolder (g i) = isFolder i"
  shows "folders_then_files lc (map g items)"
proof -
  have f1: "filter isFolder (map g items) = map g (filter isFolder items)"
    using l by (induction items) auto
  have f2: "filter (\<lambda>i. \<not> isFolder i) (map g items) = map g (filter (\<lambda>i. \<not> isFolder i) items)"
    using l by (induction items) auto
  have s: "sorted_wrt (\<lambda>a b. lc (label a) (label b) \<le> 0) (map g xs)"
    if "sorted_wrt (\<lambda>a b. lc (label a) (label b) \<le> 0) xs" "set xs \<subseteq> set items" for xs
    using that l by (induction xs) auto
  from o have a: "items = filter isFolder items @ filter (\<lambda>i. \<not> isFolder i) items"
    and b: "sorted_wrt (\<lambda>a b. lc (label a) (label b) \<le> 0) (filter isFolder items)"
    and c: "sorted_wrt (\<lambda>a b. lc (label a) (label b) \<le> 0) (filter (\<lambda>i. \<not> isFolder i) items)"
    unfolding folders_then_files_def by simp_all
  have "map g items = map g (filter isFolder items) @ map g (filter (\<lambda>i. \<not> isFolder i) items)"
    using arg_cong[OF a, of "map g"] by simp
  then show ?thesis
    unfolding folders_then_files_def f1 f2 using s[OF b] s[OF c] by simp
qed

lemma built_children_ordered:
  assumes c: "consistent_cmp lc"
    and m: "(folderPath, items) \<in> set (fst (buildFileTree P lc allExpanded cfp files h))"
  shows "folders_then_files lc items"
proof -
  from m obtain items0 where "items = js_sort (itemCompare lc) items0"
    by (auto simp: buildFileTree_def Let_def)
  then have "sorted_wrt (\<lambda>a b. itemCompare lc a b \<le> 0) items"
    using sorted_js_sort[OF consistent_itemCompare[OF c]] by simp
  then show ?thesis
    unfolding folders_then_files_def
    using folders_first group_sorted_by_label by blast
qed

lemma expansion_tree_shape:
  "expandFoldersToCurrentFile P svc cfp tree = tree
   \<or> (\<exists>c. expandFoldersToCurrentFile P svc cfp tree
         = map_tree (expandItems []
             (butlast (split_by isPathSeparator (targetRelativePath P svc c)))) tree)"
proof (cases cfp)
  case None
  then show ?thesis by (simp add: expandFoldersToCurrentFile_def)
next
  case (Some c)
  show ?thesis
  proof (cases "c \<noteq> [] \<and> targetRelativePath P svc c \<in> file_paths tree")
    case True
    then show ?thesis
      unfolding Some using expand_matched[of c P svc tree] by blast
  next
    case False
    then have "expandFoldersToCurrentFile P svc (Some c) tree = tree"
      using expand_unmatched[of c P svc tree]
      by (cases "c = []") (simp_all add: expandFoldersToCurrentFile_def)
    then show ?thesis
      unfolding Some by simp
  qed
qed

lemma expanded_children_ordered:
  assumes c: "consistent_cmp lc"
    and m: "(folderPath, items) \<in> set (expandFoldersToCurrentFile P svc cfp
              (fst (buildFileTree P lc allExpanded cfp' files h)))"
  shows "folders_then_files lc items"
proof -
  define T0 where "T0 = fst (buildFileTree P lc allExpanded cfp' files h)"
  from expansion_tree_shape[of P svc cfp T0]
  consider "expandFoldersToCurrentFile P svc cfp T0 = T0"
    | ns where "expandFoldersToCurrentFile P svc cfp T0 = map_tree (expandItems [] ns) T0"
        "\<forall>n \<in> set ns. CHR ''/'' \<notin> set n"
    using path_parts_clean by blast
  then show ?thesis
  proof cases
    case 1
    with m show ?thesis
      unfolding T0_def[symmetric] using built_children_ordered[OF c] T0_def by auto
  next
    case 2
    from m 2(1) obtain items0 where i0: "(folderPath, items0) \<in> set T0"
      and it: "items = map (expandItems [] ns) items0"
      unfolding T0_def[symmetric] by (auto simp: map_tree_def)
    have o: "folders_then_files lc items0"
      using built_children_ordered[OF c] i0 unfolding T0_def by blast
    have "label (expandItems [] ns i) = label i \<and> isFolder (expandItems [] ns i) = isFolder i"
      if "i \<in> set items0" for i
    proof -
      from that i0 have "i \<in> tree_items T0"
        by (auto simp: tree_items_def)
      then have "well_named i"
        using build_named unfolding T0_def by blast
      from expandItems_label[OF this 2(2)] expandItems_props[of "[]" ns i]
      show ?thesis by simp
    qed
    then show ?thesis
      unfolding it using folders_then_files_map[OF o] by blast
  qed
qed

text \<open>
  C4. With a consistent \<open>localeCompare\<close>, in the tree buildFileTree returns every child
  list has its Folder entries before its File entries, and each of the two groups is
  ordered by label (the display name) under \<open>localeCompare\<close>. The expansion to the
  current file, which replaces folder items in place, keeps every list so.
\<close>
theorem C4_children_ordered:
  assumes c: "consistent_cmp lc"
  shows "(\<forall>(folderPath, items) \<in> set (fst (buildFileTree P lc allExpanded cfp files h)).
            folders_then_files lc items)
       \<and> (\<forall>(folderPath, items) \<in> set (expandFoldersToCurrentFile P svc cfp
                (fst (buildFileTree P lc allExpanded cfp files h))).
            folders_then_files lc items)"
  using built_children_ordered[OF c] expanded_children_ordered[OF c] by blast

text \<open>
  C4 on the three files of the example: the root lists the folder \<open>src\<close> before the file
  \<open>old.ts\<close>, and \<open>src\<close> lists \<open>a.ts\<close> before \<open>b.ts\<close>.
\<close>
theorem C4_children_ordered_witness:
  "consistent_cmp codeUnitCompare
   \<and> fst (buildFileTree posix codeUnitCompare False (Some ''/repo/src/b.ts'') example_files ''abc123'')
       = [([], [FolderItem ''src'' ''src'' Collapsed,
                FileItem ''old.ts'' ''abc123'' ''old.ts'' False deleted]),
          (''src'', [FileItem ''a.ts'' ''abc123'' ''src/a.ts'' False modified,
                     FileItem ''b.ts'' ''abc123'' ''src/b.ts'' True added])]
   \<and> folders_then_files codeUnitCompare
        [FolderItem ''src'' ''src'' Collapsed, FileItem ''old.ts'' ''abc123'' ''old.ts'' False deleted]
   \<and> folders_then_files codeUnitCompare
        [FileItem ''a.ts'' ''abc123'' ''src/a.ts'' False modified,
         FileItem ''b.ts'' ''abc123'' ''src/b.ts'' True added]"
proof -
  have v: "fst (buildFileTree posix codeUnitCompare False (Some ''/repo/src/b.ts'') example_files ''abc123'')
       = [([], [FolderItem ''src'' ''src'' Collapsed,
                FileItem ''old.ts'' ''abc123'' ''old.ts'' False deleted]),
          (''src'', [FileItem ''a.ts'' ''abc123'' ''src/a.ts'' False modified,
                     FileItem ''b.ts'' ''abc123'' ''src/b.ts'' True added])]"
    by code_simp
  note t = C4_children_ordered[OF consistent_codeUnitCompare, of posix False
      "Some ''/repo/src/b.ts''" example_files "''abc123''", THEN conjunct1, unfolded v]
  from t have "folders_then_files codeUnitCompare
        [FolderItem ''src'' ''src'' Collapsed, FileItem ''old.ts'' ''abc123'' ''old.ts'' False deleted]"
    and "folders_then_files codeUnitCompare
        [FileItem ''a.ts'' ''abc123'' ''src/a.ts'' False modified,
         FileItem ''b.ts'' ''abc123'' ''src/b.ts'' True added]"
    by simp_all
  with consistent_codeUnitCompare v show ?thesis by simp
qed

section \<open>The blame parser: valid input and the header test\<close>

lemma split_by_no_separator: "\<forall>c \<in> set w. \<not> p c \<Longrightarrow> split_by p w = [w]"
  by (induction w) simp_all

lemma split_join_lines:
  assumes "ls \<noteq> []" and "\<forall>l \<in> set ls. \<forall>c \<in> set l. \<not> p c" and "p s"
  shows "split_by p (join_with [s] ls) = ls"
  using assms(1,2)
proof (induction ls)
  case Nil
  then show ?case by simp
next
  case (Cons x ls)
  show ?case
  proof (cases ls)
    case Nil
    with Cons.prems show ?thesis by (simp add: split_by_no_separator)
  next
    case (Cons y ys)
    have x: "\<forall>c \<in> set x. \<not> p c"
      using Cons.prems(2) by simp
    have ih: "split_by p (join_with [s] ls) = ls"
      using Cons.IH Cons.prems(2) Cons by simp
    have "join_with [s] (x # ls) = x @ s # join_with [s] ls"
      unfolding Cons by simp
    then show ?thesis
      using split_by_prefix[OF x assms(3), of "join_with [s] ls"] ih by simp
  qed
qed

lemma join_split_fields: "join_with [s] (split_by (\<lambda>c. c = s) line) = line"
proof (induction line)
  case Nil
  show ?case by simp
next
  case (Cons a line)
  obtain w ws where w: "split_by (\<lambda>c. c = s) line = w # ws"
    using split_by_nonempty[of "\<lambda>c. c = s" line] by (cases "split_by (\<lambda>c. c = s) line") auto
  show ?case
  proof (cases "a = s")
    case True
    with Cons w show ?thesis by simp
  next
    case False
    with Cons w show ?thesis by (cases ws) simp_all
  qed
qed

lemma digitsValue_snoc: "digitsValue (s @ [c]) = 10 * digitsValue s + (of_char c - 48)"
  by (simp add: digitsValue_def)

lemma digitsValue_decimalValue: "digitsValue s = decimalValue s"
  by (induction s rule: rev_induct) (simp_all add: digitsValue_snoc decimalValue_def digitsValue_def)

lemma decimal_digits: "decimal s \<Longrightarrow> s \<noteq> [] \<and> (\<forall>c \<in> set s. isDigit c)"
  by (simp add: decimal_def isDigit_def list_all_iff)

lemma digits_then_stop:
  assumes "\<forall>c \<in> set ds. isDigit c" and "r = [] \<or> \<not> isDigit (hd r)"
  shows "takeWhile isDigit (ds @ r) = ds" and "dropWhile isDigit (ds @ r) = r"
proof -
  have a: "takeWhile isDigit r = []" "dropWhile isDigit r = r"
    using assms(2) by (cases r; auto)+
  show "takeWhile isDigit (ds @ r) = ds"
    using assms(1) a by (simp add: takeWhile_append2)
  show "dropWhile isDigit (ds @ r) = r"
    using assms(1) a by (simp add: dropWhile_append2)
qed

lemma space_no_digit: "\<not> isDigit (CHR '' '')"
  by (simp add: isDigit_def)

lemma header_of_fields:
  assumes h: "length h = 40" "\<forall>c \<in> set h. isHexLower c"
    and ol: "ol \<noteq> []" "\<forall>c \<in> set ol. isDigit c"
    and fl: "fl \<noteq> []" "\<forall>c \<in> set fl. isDigit c"
    and r: "r = [] \<or> hd r = CHR '' ''"
  shows "is_header (h @ CHR '' '' # ol @ CHR '' '' # fl @ r)"
    and "header_final_line (h @ CHR '' '' # ol @ CHR '' '' # fl @ r) = digitsValue fl"
proof -
  define line where "line = h @ CHR '' '' # ol @ CHR '' '' # fl @ r"
  have t40: "take 40 line = h"
    using h(1) by (simp add: line_def)
  have d40: "drop 40 line = CHR '' '' # ol @ CHR '' '' # fl @ r"
    using h(1) by (simp add: line_def)
  have "drop 41 line = drop 1 (drop 40 line)"
    by simp
  then have d41: "drop 41 line = ol @ CHR '' '' # fl @ r"
    unfolding d40 by simp
  have s1: "takeWhile isDigit (ol @ CHR '' '' # fl @ r) = ol"
    "dropWhile isDigit (ol @ CHR '' '' # fl @ r) = CHR '' '' # fl @ r"
    using digits_then_stop[OF ol(2), of "CHR '' '' # fl @ r"] space_no_digit by simp_all
  have r': "r = [] \<or> \<not> isDigit (hd r)"
    using r space_no_digit by auto
  have s2: "takeWhile isDigit (fl @ r) = fl"
    using digits_then_stop[OF fl(2) r'] by simp
  obtain c cs where f: "fl = c # cs" "isDigit c"
    using fl by (cases fl) auto
  have "is_header line"
    unfolding is_header_def Let_def t40 d40 d41 s1
    using h ol(1) f by (simp add: list_all_iff)
  then show "is_header (h @ CHR '' '' # ol @ CHR '' '' # fl @ r)"
    by (simp add: line_def)
  have "header_final_line line = digitsValue fl"
    unfolding header_final_line_def d41 s1 by (simp add: s2)
  then show "header_final_line (h @ CHR '' '' # ol @ CHR '' '' # fl @ r) = digitsValue fl"
    by (simp add: line_def)
qed

lemma hex_class: "(c \<in> set ''0123456789abcdef'') = isHexLower c"
  unfolding isHexLower_def by auto

lemma spec_fields_code:
  assumes "spec_header_fields h ol fl"
  shows "length h = 40 \<and> (\<forall>c \<in> set h. isHexLower c) \<and> ol \<noteq> [] \<and> (\<forall>c \<in> set ol. isDigit c)
     \<and> fl \<noteq> [] \<and> (\<forall>c \<in> set fl. isDigit c)"
proof -
  from assms have a: "length h = 40" and b: "list_all (\<lambda>c. c \<in> set ''0123456789abcdef'') h"
    and c: "decimal ol" and d: "decimal fl"
    unfolding spec_header_fields_def by blast+
  from b have "\<forall>c \<in> set h. isHexLower c"
    unfolding list_all_iff hex_class .
  with a decimal_digits[OF c] decimal_digits[OF d] show ?thesis by blast
qed

text \<open>The parser's test is complete: it recognises every header line of the format.\<close>

lemma header_complete:
  assumes "spec_header line"
  shows "is_header line" and "header_final_line line = spec_final_line line"
proof -
  define parts where "parts = split_by (\<lambda>c. c = CHR '' '') line"
  have j: "line = join_with '' '' parts"
    unfolding parts_def by (simp add: join_split_fields)
  from assms consider h ol fl where "parts = [h, ol, fl]" "spec_header_fields h ol fl"
    | h ol fl n where "parts = [h, ol, fl, n]" "spec_header_fields h ol fl" "decimal n"
    unfolding spec_header_def parts_def[symmetric]
    by (auto split: list.splits)
  then have "is_header line \<and> header_final_line line = spec_final_line line"
  proof cases
    case 1
    note c = spec_fields_code[OF 1(2)]
    have l: "line = h @ CHR '' '' # ol @ CHR '' '' # fl @ []"
      unfolding j 1(1) by simp
    have "spec_final_line line = digitsValue fl"
      unfolding spec_final_line_def parts_def[symmetric] 1(1)
      by (simp add: digitsValue_decimalValue)
    with header_of_fields[of h ol fl "[]"] c l show ?thesis by simp
  next
    case 2
    note c = spec_fields_code[OF 2(2)]
    have l: "line = h @ CHR '' '' # ol @ CHR '' '' # fl @ (CHR '' '' # n)"
      unfolding j 2(1) by simp
    have "spec_final_line line = digitsValue fl"
      unfolding spec_final_line_def parts_def[symmetric] 2(1)
      by (simp add: digitsValue_decimalValue)
    with header_of_fields[of h ol fl "CHR '' '' # n"] c l show ?thesis by simp
  qed
  then show "is_header line" and "header_final_line line = spec_final_line line"
    by simp_all
qed

lemma header_second_char: "is_header l \<Longrightarrow> 1 < length l \<and> isHexLower (l ! 1)"
proof -
  assume a: "is_header l"
  then have len: "length (take 40 l) = 40" and hex: "list_all isHexLower (take 40 l)"
    unfolding is_header_def Let_def by simp_all
  from len have "1 < length l" by simp
  moreover have "take 40 l ! 1 \<in> set (take 40 l)"
    using len by (intro nth_mem) simp
  then have "isHexLower (take 40 l ! 1)"
    using hex by (simp add: list_all_iff)
  then have "isHexLower (l ! 1)" by simp
  ultimately show ?thesis by simp
qed

lemma key_second_char: "k \<in> set porcelain_keys \<Longrightarrow> 1 < length k \<and> \<not> isHexLower (k ! 1)"
  by (auto simp: porcelain_keys_def isHexLower_def)

lemma metadata_not_header:
  assumes "spec_metadata_line l"
  shows "\<not> is_header l"
proof
  assume hd: "is_header l"
  from assms obtain k where k: "k \<in> set porcelain_keys" and c: "l = k \<or> startsWith l (k @ '' '')"
    by (auto simp: spec_metadata_line_def list_ex_iff)
  note ks = key_second_char[OF k]
  have "l ! 1 = k ! 1"
  proof (cases "l = k")
    case True
    then show ?thesis by simp
  next
    case False
    with c have e: "take (length (k @ '' '')) l = k @ '' ''"
      by (simp add: startsWith_def)
    have "l ! 1 = take (length (k @ '' '')) l ! 1"
      using ks by (intro nth_take[symmetric]) auto
    also have "\<dots> = (k @ '' '') ! 1"
      unfolding e ..
    also have "\<dots> = k ! 1"
      using ks by (simp add: nth_append)
    finally show ?thesis .
  qed
  with header_second_char[OF hd] ks show False by simp
qed

lemma other_line_not_header:
  assumes "spec_blame_line l" and "\<not> spec_header l"
  shows "\<not> is_header l"
proof -
  from assms consider "l = []" | "take 1 l = [CHR 0x09]" | "spec_metadata_line l"
    by (auto simp: spec_blame_line_def)
  then show ?thesis
  proof cases
    case 1
    then show ?thesis by (simp add: is_header_def)
  next
    case 2
    then obtain r where "l = CHR 0x09 # r" by (cases l) auto
    then show ?thesis by (simp add: is_header_def isHexLower_def)
  next
    case 3
    then show ?thesis by (rule metadata_not_header)
  qed
qed

lemma recognised_headers:
  assumes "list_all spec_blame_line ls"
  shows "filter is_header ls = filter spec_header ls"
proof (rule filter_cong[OF refl])
  fix l assume "l \<in> set ls"
  with assms have "spec_blame_line l" by (simp add: list_all_iff)
  then show "is_header l = spec_header l"
    using header_complete(1)[of l] other_line_not_header[of l] by blast
qed

lemma parseInt10_decimal:
  assumes "decimal s"
  shows "parseInt10 s = Some (decimalValue s)"
proof -
  from decimal_digits[OF assms] obtain c r where s: "s = c # r" and d: "\<forall>c \<in> set s. isDigit c"
    by (cases s) auto
  then have "isDigit c" by simp
  from parseInt10_digit_start[OF s this] have "parseInt10 s = Some (digitsValue (takeWhile isDigit s))" .
  moreover have "takeWhile isDigit s = s"
    using d by (simp add: takeWhile_eq_all_conv)
  ultimately show ?thesis
    by (simp add: digitsValue_decimalValue)
qed

lemma spec_timestamp_code: "spec_timestamp_ok toISO l \<Longrightarrow> timestamp_line_ok toISO l"
  by (auto simp: spec_timestamp_ok_def timestamp_line_ok_def parseInt10_decimal)

text \<open>
  C2. For every valid porcelain input (its lines are header, metadata, content or empty
  lines of the format, with one header line for each final line number \<open>1..n\<close>, in any
  order, and printable author-time values) the parser returns; the result has one record
  for each header line of the input, its line numbers are \<open>1, 2, ..., n\<close> in this order
  (so it is sorted ascending whatever the order of the input), and every record has a
  non-empty commit hash, of 40 characters.
\<close>
theorem C2_blame_output_shape:
  assumes v: "valid_blame_lines toISO ls"
  shows "\<exists>recs. parseBlameOutput clock toISO (join_with [CHR 0x0A] ls) = Inr recs
           \<and> length recs = length (filter spec_header ls)
           \<and> map lineNumber recs = map int [1 ..< Suc (length (filter spec_header ls))]
           \<and> sorted (map lineNumber recs)
           \<and> (\<forall>r \<in> set recs. commitHash r \<noteq> [] \<and> length (commitHash r) = 40)"
proof -
  define hs where "hs = filter spec_header ls"
  define st0 where "st0 = \<lparr>blameInfo = [], commitCache = [], currentCommitHash = []\<rparr>"
  define cmp where "cmp = (\<lambda>(a :: BlameLineInfo) (b :: BlameLineInfo). lineNumber a - lineNumber b)"
  from v have ne: "ls \<noteq> []" and kinds: "list_all spec_blame_line ls"
    and ts: "list_all (spec_timestamp_ok toISO) ls"
    and ms: "mset (map spec_final_line hs) = mset (map int [1 ..< Suc (length hs)])"
    unfolding valid_blame_lines_def hs_def by blast+
  have nolf: "\<forall>l \<in> set ls. \<forall>c \<in> set l. \<not> (c = CHR 0x0A)"
    using kinds by (auto simp: list_all_iff spec_blame_line_def)
  have lines: "split_by (\<lambda>c. c = CHR 0x0A) (join_with [CHR 0x0A] ls) = ls"
    by (rule split_join_lines[OF ne nolf]) simp
  have hl: "filter is_header ls = hs"
    unfolding hs_def by (rule recognised_headers[OF kinds])
  have ok: "list_all (timestamp_line_ok toISO) ls"
    using ts spec_timestamp_code unfolding list_all_iff by blast
  have fin: "map header_final_line hs = map spec_final_line hs"
    unfolding hs_def by (rule map_cong[OF refl]) (simp add: header_complete(2))
  from blame_loop_total[OF ok, of clock st0] obtain st' where
    run: "blame_loop clock toISO st0 ls = Inr st'"
    and keys: "map record_key (blameInfo st') = map header_key hs"
    by (auto simp: st0_def hl)
  define recs where "recs = js_sort cmp (blameInfo st')"
  have res: "parseBlameOutput clock toISO (join_with [CHR 0x0A] ls) = Inr recs"
    unfolding parseBlameOutput_def lines using run
    by (simp add: recs_def cmp_def st0_def)
  have "length (map record_key (blameInfo st')) = length (map header_key hs)"
    using keys by simp
  then have len: "length recs = length hs"
    by (simp add: recs_def length_js_sort)
  have "map fst (map record_key (blameInfo st')) = map fst (map header_key hs)"
    using keys by simp
  then have "map lineNumber (blameInfo st') = map header_final_line hs"
    by (simp add: record_key_def header_key_def comp_def)
  then have nums: "map lineNumber (blameInfo st') = map spec_final_line hs"
    using fin by simp
  have "mset (map lineNumber recs) = mset (map lineNumber (blameInfo st'))"
    unfolding recs_def mset_map by (simp add: mset_js_sort)
  then have m: "mset (map lineNumber recs) = mset (map int [1 ..< Suc (length hs)])"
    using nums ms by simp
  have "sorted_wrt (\<lambda>a b. cmp a b \<le> 0) recs"
    unfolding recs_def cmp_def by (rule sorted_js_sort[OF consistent_lineNumber_cmp])
  then have "sorted_wrt (\<lambda>a b. lineNumber a \<le> lineNumber b) recs"
    by (simp add: cmp_def)
  then have srt: "sorted (map lineNumber recs)"
    by (simp add: sorted_map)
  have eq: "map lineNumber recs = map int [1 ..< Suc (length hs)]"
    by (rule sorted_with_mset_upt[OF srt m])
  have hash: "commitHash r \<noteq> [] \<and> length (commitHash r) = 40" if "r \<in> set recs" for r
  proof -
    from that have "r \<in> set (blameInfo st')"
      by (simp add: recs_def set_js_sort)
    then have "record_key r \<in> set (map record_key (blameInfo st'))"
      by simp
    then have "record_key r \<in> set (map header_key hs)"
      using keys by simp
    then obtain l where l: "l \<in> set hs" "record_key r = header_key l"
      by auto
    from l(1) have "l \<in> set (filter is_header ls)"
      unfolding hl .
    then have "is_header l"
      by simp
    then have "length (take 40 l) = 40"
      unfolding is_header_def Let_def by simp
    moreover have "commitHash r = take 40 l"
      using l(2) by (simp add: record_key_def header_key_def)
    ultimately show ?thesis by auto
  qed
  show ?thesis
    using res len eq srt hash unfolding hs_def by blast
qed

text \<open>
  C2 on an input whose two header lines come in the order 2, 1: the records come back
  in the order 1, 2.
\<close>
theorem C2_blame_output_shape_witness:
  "valid_blame_lines example_toISO example_blame_lines
   \<and> map spec_final_line (filter spec_header example_blame_lines) = [2, 1]
   \<and> (\<exists>recs. parseBlameOutput example_clock example_toISO
                (join_with [CHR 0x0A] example_blame_lines) = Inr recs
         \<and> length recs = 2 \<and> map lineNumber recs = [1, 2])"
proof -
  have ne: "example_blame_lines \<noteq> []"
    by (simp add: example_blame_lines_def)
  have kinds: "list_all spec_blame_line example_blame_lines"
    by code_simp
  have ts: "list_all (spec_timestamp_ok example_toISO) example_blame_lines"
    by code_simp
  have n: "length (filter spec_header example_blame_lines) = 2"
    by code_simp
  have fl: "map spec_final_line (filter spec_header example_blame_lines) = [2, 1]"
    by code_simp
  have u: "map int [1 ..< Suc 2] = [1, 2]"
    by code_simp
  have p: "mset [2, 1 :: int] = mset [1, 2]"
    by simp
  have v: "valid_blame_lines example_toISO example_blame_lines"
    unfolding valid_blame_lines_def n fl u using ne kinds ts p by blast
  from C2_blame_output_shape[OF v, of example_clock] obtain recs where
    a: "parseBlameOutput example_clock example_toISO (join_with [CHR 0x0A] example_blame_lines)
        = Inr recs"
    and b: "length recs = length (filter spec_header example_blame_lines)"
    and c: "map lineNumber recs
        = map int [1 ..< Suc (length (filter spec_header example_blame_lines))]"
    by blast
  have b': "length recs = 2"
    using b by (simp only: n)
  have c': "map lineNumber recs = [1, 2]"
    using c by (simp only: n u)
  from a b' c' have "\<exists>recs. parseBlameOutput example_clock example_toISO
        (join_with [CHR 0x0A] example_blame_lines) = Inr recs
         \<and> length recs = 2 \<and> map lineNumber recs = [1, 2]"
    by (intro exI[of _ recs] conjI)
  with v fl show ?thesis by (intro conjI)
qed

section \<open>Name-status output as a whole\<close>

lemma blank_not_parsed:
  assumes "trim l = []"
  shows "parseNameStatusLine l = None"
proof (cases l)
  case Nil
  then show ?thesis by (simp add: parseNameStatusLine_def matchNameStatus_def)
next
  case (Cons c r)
  have "isSpaceJS c"
  proof (rule ccontr)
    assume n: "\<not> isSpaceJS c"
    then have "dropWhile isSpaceJS l = l"
      using Cons by simp
    then have "trim l = rev (dropWhile isSpaceJS (rev l))"
      by (simp add: trim_def)
    with assms have "dropWhile isSpaceJS (rev l) = []"
      by simp
    then have "\<forall>x \<in> set (rev l). isSpaceJS x"
      by simp
    with Cons n show False by simp
  qed
  then have "c \<notin> set ''AMDRT''"
    by (auto simp: isSpaceJS_def)
  with Cons show ?thesis
    by (simp add: parseNameStatusLine_def matchNameStatus_def)
qed

lemma map_filter_skip:
  assumes "\<And>x. x \<in> set xs \<Longrightarrow> \<not> P x \<Longrightarrow> f x = None"
  shows "List.map_filter f (filter P xs) = List.map_filter f xs"
  using assms
proof (induction xs)
  case Nil
  show ?case by simp
next
  case (Cons x xs)
  then have ih: "List.map_filter f (filter P xs) = List.map_filter f xs"
    by simp
  show ?case
  proof (cases "P x")
    case True
    with ih show ?thesis by (simp split: option.splits)
  next
    case False
    then have "f x = None" using Cons.prems by simp
    with False ih show ?thesis by simp
  qed
qed

lemma parseNameStatus_lines:
  "parseNameStatus out = List.map_filter parseNameStatusLine (split_by (\<lambda>c. c = CHR 0x0A) out)"
  unfolding parseNameStatus_def
  by (rule map_filter_skip) (simp add: blank_not_parsed)

lemma parseNameStatus_joined:
  assumes "ls \<noteq> []" and "\<forall>l \<in> set ls. CHR 0x0A \<notin> set l"
  shows "parseNameStatus (join_with [CHR 0x0A] ls) = List.map_filter parseNameStatusLine ls"
proof -
  have "\<forall>l \<in> set ls. \<forall>c \<in> set l. \<not> (c = CHR 0x0A)"
    using assms(2) by blast
  from split_join_lines[OF assms(1) this, of "CHR 0x0A"]
  have "split_by (\<lambda>c. c = CHR 0x0A) (join_with [CHR 0x0A] ls) = ls"
    by simp
  then show ?thesis
    by (simp add: parseNameStatus_lines)
qed

text \<open>
  C6, amended. getChangedFiles parses a line as one letter of \<open>A M D R T\<close> followed by any
  number of digits, then white space, then a path: every such line gives the path with
  the status of the letter (A added, D deleted, M, R and T modified), and every line that
  is parsed has this shape. For every output, the result is, in the order of the lines,
  what the lines of this shape give; blank lines and lines of any other shape are
  skipped. On the three-line output of the example the result is \<open>src/a.ts\<close> modified,
  \<open>src/b.ts\<close> added, \<open>old.ts\<close> deleted.
\<close>
theorem C6_name_status_parsing:
  "(\<forall>c ds ws p. c \<in> set ''AMDRT'' \<and> list_all isDigit ds \<and> ws \<noteq> [] \<and> list_all isSpaceJS ws
        \<and> p \<noteq> [] \<and> \<not> isSpaceJS (hd p) \<and> \<not> list_ex isLineTerminator p \<longrightarrow>
        parseNameStatusLine (c # ds @ ws @ p) = Some \<lparr>path = p, status = letterStatus c\<rparr>)
   \<and> (\<forall>line f. parseNameStatusLine line = Some f \<longrightarrow>
        (\<exists>c ds ws. line = c # ds @ ws @ path f \<and> c \<in> set ''AMDRT'' \<and> list_all isDigit ds
           \<and> ws \<noteq> [] \<and> list_all isSpaceJS ws \<and> path f \<noteq> []
           \<and> \<not> list_ex isLineTerminator (path f) \<and> status f = letterStatus c))
   \<and> (\<forall>out. parseNameStatus out
          = List.map_filter parseNameStatusLine (split_by (\<lambda>c. c = CHR 0x0A) out))
   \<and> (\<forall>ls. ls \<noteq> [] \<and> (\<forall>l \<in> set ls. CHR 0x0A \<notin> set l) \<longrightarrow>
        parseNameStatus (join_with [CHR 0x0A] ls) = List.map_filter parseNameStatusLine ls)
   \<and> parseNameStatus example_name_status = example_files"
proof -
  have ex: "parseNameStatus example_name_status = example_files"
    by code_simp
  show ?thesis
    using ex parse_line_complete parse_line_sound parseNameStatus_lines parseNameStatus_joined
    by blast
qed

text \<open>
  The amended C6 at the line \<open>R100<TAB>old.ts\<close>, and on an output of five lines of which
  three have the shape.
\<close>
theorem C6_name_status_parsing_witness:
  "CHR ''R'' \<in> set ''AMDRT'' \<and> list_all isDigit ''100'' \<and> list_all isSpaceJS [CHR 0x09]
   \<and> \<not> isSpaceJS (hd ''old.ts'') \<and> \<not> list_ex isLineTerminator ''old.ts''
   \<and> parseNameStatusLine (CHR ''R'' # ''100'' @ [CHR 0x09] @ ''old.ts'')
       = Some \<lparr>path = ''old.ts'', status = modified\<rparr>
   \<and> example_name_status_lines \<noteq> []
   \<and> list_all (\<lambda>l. CHR 0x0A \<notin> set l) example_name_status_lines
   \<and> parseNameStatus (join_with [CHR 0x0A] example_name_status_lines)
       = [\<lparr>path = ''src/a.ts'', status = modified\<rparr>, \<lparr>path = ''old.ts'', status = modified\<rparr>,
          \<lparr>path = ''gone.ts'', status = deleted\<rparr>]
   \<and> parseNameStatus example_name_status = example_files"
proof -
  have h: "CHR ''R'' \<in> set ''AMDRT'' \<and> list_all isDigit ''100'' \<and> [CHR 0x09] \<noteq> []
      \<and> list_all isSpaceJS [CHR 0x09] \<and> ''old.ts'' \<noteq> [] \<and> \<not> isSpaceJS (hd ''old.ts'')
      \<and> \<not> list_ex isLineTerminator ''old.ts''"
    by (simp add: isDigit_def isSpaceJS_def isLineTerminator_def)
  note t = C6_name_status_parsing
  from t have t1: "\<forall>c ds ws p. c \<in> set ''AMDRT'' \<and> list_all isDigit ds \<and> ws \<noteq> []
        \<and> list_all isSpaceJS ws
        \<and> p \<noteq> [] \<and> \<not> isSpaceJS (hd p) \<and> \<not> list_ex isLineTerminator p \<longrightarrow>
        parseNameStatusLine (c # ds @ ws @ p) = Some \<lparr>path = p, status = letterStatus c\<rparr>"
    by (rule conjunct1)
  from t have t4: "\<forall>ls. ls \<noteq> [] \<and> (\<forall>l \<in> set ls. CHR 0x0A \<notin> set l) \<longrightarrow>
        parseNameStatus (join_with [CHR 0x0A] ls) = List.map_filter parseNameStatusLine ls"
    by blast
  from t have t5: "parseNameStatus example_name_status = example_files"
    by blast
  have r: "parseNameStatusLine (CHR ''R'' # ''100'' @ [CHR 0x09] @ ''old.ts'')
      = Some \<lparr>path = ''old.ts'', status = letterStatus (CHR ''R'')\<rparr>"
    using t1[rule_format, OF h] .
  have ne: "example_name_status_lines \<noteq> []"
    by (simp add: example_name_status_lines_def)
  have lf: "list_all (\<lambda>l. CHR 0x0A \<notin> set l) example_name_status_lines"
    by (simp add: example_name_status_lines_def)
  then have lf': "\<forall>l \<in> set example_name_status_lines. CHR 0x0A \<notin> set l"
    by (simp add: list_all_iff)
  have m: "List.map_filter parseNameStatusLine example_name_status_lines
      = [\<lparr>path = ''src/a.ts'', status = modified\<rparr>, \<lparr>path = ''old.ts'', status = modified\<rparr>,
         \<lparr>path = ''gone.ts'', status = deleted\<rparr>]"
    by code_simp
  have j: "parseNameStatus (join_with [CHR 0x0A] example_name_status_lines)
      = [\<lparr>path = ''src/a.ts'', status = modified\<rparr>, \<lparr>path = ''old.ts'', status = modified\<rparr>,
         \<lparr>path = ''gone.ts'', status = deleted\<rparr>]"
    using t4[rule_format, OF conjI[OF ne lf']] m by simp
  show ?thesis
    using h r ne lf j t5 by (simp add: letterStatus_def)
qed

end
